theory Spec2Isabelle
  imports Main
begin

section \<open>Session lock: the shared key-value store\<close>

text \<open>
  The generation route serialises the turns of one session with a key of the shared
  store. The store is Redis; the route uses two commands of it,
  \<^verbatim>\<open>SET key "1" EX 3600 NX\<close> and \<^verbatim>\<open>DEL key\<close>. A key maps to its value and
  the absolute time (in seconds) at which the store drops it. A key whose expiry time
  has been reached is absent for every command.
\<close>

type_synonym redis = "string \<rightharpoonup> (string \<times> nat)"

definition redis_exists :: "redis \<Rightarrow> nat \<Rightarrow> string \<Rightarrow> bool" where
  "redis_exists r now k = (case r k of None \<Rightarrow> False | Some (v, expiry) \<Rightarrow> now < expiry)"

text \<open>\<^verbatim>\<open>SET k v EX ttl NX\<close>: create the key if it is absent; the reply is OK (here
  \<open>True\<close>) when the key was created and null (\<open>False\<close>) when it was there.\<close>

definition redis_set_ex_nx :: "redis \<Rightarrow> nat \<Rightarrow> string \<Rightarrow> string \<Rightarrow> nat \<Rightarrow> bool \<times> redis" where
  "redis_set_ex_nx r now k v ttl =
     (if redis_exists r now k then (False, r) else (True, r(k \<mapsto> (v, now + ttl))))"

definition redis_del :: "redis \<Rightarrow> string \<Rightarrow> redis" where
  "redis_del r k = r(k := None)"

text \<open>The key of a session, \<^verbatim>\<open>`session:active:${sessionId}`\<close>, and the two uses the
  route makes of it.\<close>

definition activeSessionKey :: "string \<Rightarrow> string" where
  "activeSessionKey sessionId = ''session:active:'' @ sessionId"

definition lock_ttl :: nat where
  "lock_ttl = 3600"

definition acquire :: "redis \<Rightarrow> nat \<Rightarrow> string \<Rightarrow> bool \<times> redis" where
  "acquire r now sessionId = redis_set_ex_nx r now (activeSessionKey sessionId) ''1'' lock_ttl"

definition release :: "redis \<Rightarrow> string \<Rightarrow> redis" where
  "release r sessionId = redis_del r (activeSessionKey sessionId)"

text \<open>
  \<^verbatim>\<open>deleteSessionById\<close> deletes two keys of the session it deletes,
  \<^verbatim>\<open>redisClient.del(`session:active:${sessionId}`, doneKey(sessionId))\<close>, with
  \<^verbatim>\<open>doneKey = (sessionId) => `session:${sessionId}:done`\<close>.
\<close>

definition doneKey :: "string \<Rightarrow> string" where
  "doneKey sessionId = ''session:'' @ sessionId @ '':done''"

definition delete_session_keys :: "redis \<Rightarrow> string \<Rightarrow> redis" where
  "delete_session_keys r sessionId = redis_del (redis_del r (activeSessionKey sessionId)) (doneKey sessionId)"

text \<open>
  The request schemas accept only UUIDs as session ids: 36 characters, none of them a
  colon.
\<close>

definition uuid_shaped :: "string \<Rightarrow> bool" where
  "uuid_shaped sessionId = (length sessionId = 36 \<and> CHR '':'' \<notin> set sessionId)"

text \<open>
  What the requests of a server do to the store, in the order the store serves them. A
  request (a number) tries to take the lock of a session; if it gets it, it is a
  running turn of that session until its \<^verbatim>\<open>finally\<close> block runs, which deletes the
  key of the session whoever holds it then. Only a running turn reaches a \<^verbatim>\<open>finally\<close>
  block. A session is deleted, with its keys. Time passes.
\<close>

datatype lock_op = Acquire nat string | Finally nat string | DeleteSession string | Elapse nat

record lock_state =
  lk_store :: redis
  lk_now :: nat
  lk_running :: "(nat \<times> string) list"

definition lock_init :: lock_state where
  "lock_init = \<lparr>lk_store = Map.empty, lk_now = 0, lk_running = []\<rparr>"

fun lock_step :: "lock_state \<Rightarrow> lock_op \<Rightarrow> lock_state" where
  "lock_step st (Acquire rq sid) =
     (if fst (acquire (lk_store st) (lk_now st) sid)
      then st\<lparr>lk_store := snd (acquire (lk_store st) (lk_now st) sid),
              lk_running := (rq, sid) # lk_running st\<rparr>
      else st)"
| "lock_step st (Finally rq sid) =
     (if (rq, sid) \<in> set (lk_running st)
      then st\<lparr>lk_store := release (lk_store st) sid,
              lk_running := removeAll (rq, sid) (lk_running st)\<rparr>
      else st)"
| "lock_step st (DeleteSession sid) = st\<lparr>lk_store := delete_session_keys (lk_store st) sid\<rparr>"
| "lock_step st (Elapse d) = st\<lparr>lk_now := lk_now st + d\<rparr>"

definition lock_run :: "lock_state \<Rightarrow> lock_op list \<Rightarrow> lock_state" where
  "lock_run = foldl lock_step"

fun elapsed :: "lock_op list \<Rightarrow> nat" where
  "elapsed [] = 0"
| "elapsed (Elapse d # ops) = d + elapsed ops"
| "elapsed (_ # ops) = elapsed ops"

text \<open>A session id, and what holds while a turn \<open>me\<close> holds the lock of session
  \<open>sid\<close> undisturbed: the key is in the store with its expiry, and the running turns
  of the session are \<open>me\<close> and turns that ran before it.\<close>

definition some_session :: string where
  "some_session = ''0199ea78-389d-7dc0-a2b9-a41cf7c8b782''"

definition held_by :: "nat \<Rightarrow> string \<Rightarrow> nat \<Rightarrow> (nat \<times> string) list \<Rightarrow> lock_state \<Rightarrow> bool" where
  "held_by me sid expiry before st =
     (lk_store st (activeSessionKey sid) = Some (''1'', expiry)
      \<and> list_all (\<lambda>(rq, s). s = sid \<longrightarrow> rq = me \<or> (rq, sid) \<in> set before) (lk_running st))"

section \<open>Background jobs\<close>

text \<open>
  A background job keeps the lines it has emitted (\<^verbatim>\<open>events\<close>) and an event emitter
  with the listeners of its two events, \<^verbatim>\<open>"event"\<close> and \<^verbatim>\<open>"done"\<close>. The listeners
  of the stream route write to the response of their request, so a listener is the index
  of that response. \<^verbatim>\<open>abortController\<close> names the job's abort controller (by its index
  among the controllers of the server), and \<^verbatim>\<open>aborted\<close> is the state of its signal.
\<close>

datatype JobStatus = Queued | Running | Completed | Failed | Cancelled

datatype agent_id = ClaudeCode | Codex

record sse_response =
  written :: "string list"
  ended :: bool

record BackgroundJob =
  taskId :: string
  sessionId :: string
  status :: JobStatus
  createdAt :: nat
  startedAt :: "nat option"
  finishedAt :: "nat option"
  error :: "string option"
  events :: "string list"
  on_event :: "nat list"
  on_done :: "nat list"
  abortController :: nat
  aborted :: bool

datatype core_phase = Scheduled | InCore | Settled

record job_run =
  job :: BackgroundJob
  responses :: "sse_response list"
  agent :: agent_id
  core :: core_phase
  tailStarted :: bool
  done_emits :: nat

subsection \<open>Server-sent event frames and JSON strings\<close>

definition escape_newlines :: "string \<Rightarrow> string" where
  "escape_newlines data = concat (map (\<lambda>c. if c = CHR 0x0A then [CHR 0x5C, CHR ''n''] else [c]) data)"

text \<open>\<^verbatim>\<open>send\<close>: \<^verbatim>\<open>res.write(`data: ${data.replace(/\n/g, "\\n")}\n\n`)\<close>.\<close>

definition sse_frame :: "string \<Rightarrow> string" where
  "sse_frame data = ''data: '' @ escape_newlines data @ [CHR 0x0A, CHR 0x0A]"

definition res_write :: "string \<Rightarrow> sse_response \<Rightarrow> sse_response" where
  "res_write chunk r = (if ended r then r else r\<lparr>written := written r @ [chunk]\<rparr>)"

definition res_end :: "sse_response \<Rightarrow> sse_response" where
  "res_end r = r\<lparr>ended := True\<rparr>"

definition hex_digit :: "nat \<Rightarrow> char" where
  "hex_digit n = ''0123456789abcdef'' ! (n mod 16)"

text \<open>The characters of a string as \<^verbatim>\<open>JSON.stringify\<close> writes them.\<close>

definition json_escape_char :: "char \<Rightarrow> string" where
  "json_escape_char c =
     (if c = CHR 0x22 then [CHR 0x5C, CHR 0x22]
      else if c = CHR 0x5C then [CHR 0x5C, CHR 0x5C]
      else if c = CHR 0x08 then [CHR 0x5C, CHR ''b'']
      else if c = CHR 0x0C then [CHR 0x5C, CHR ''f'']
      else if c = CHR 0x0A then [CHR 0x5C, CHR ''n'']
      else if c = CHR 0x0D then [CHR 0x5C, CHR ''r'']
      else if c = CHR 0x09 then [CHR 0x5C, CHR ''t'']
      else if of_char c < (0x20 :: nat)
        then [CHR 0x5C, CHR ''u'', CHR ''0'', CHR ''0'',
              hex_digit (of_char c div 16), hex_digit (of_char c)]
      else [c])"

definition json_string :: "string \<Rightarrow> string" where
  "json_string s = [CHR 0x22] @ concat (map json_escape_char s) @ [CHR 0x22]"

text \<open>\<^verbatim>\<open>JSON.stringify({ type: "error", error: msg })\<close> and the sentinel of a
  finished turn.\<close>

definition error_event :: "string \<Rightarrow> string" where
  "error_event msg = ''{\"type\":\"error\",\"error\":'' @ json_string msg @ ''}''"

definition done_line :: string where
  "done_line = ''{\"done\": true}''"

subsection \<open>Emitting and subscribing\<close>

text \<open>\<^verbatim>\<open>emitter.emit("event", line)\<close> calls the listeners in the order they were
  registered; each writes the line, framed, to its response.\<close>

definition fanout :: "string \<Rightarrow> sse_response list \<Rightarrow> nat list \<Rightarrow> sse_response list" where
  "fanout line rs ids = foldl (\<lambda>rs i. rs[i := res_write (sse_frame line) (rs ! i)]) rs ids"

definition emit_event :: "string \<Rightarrow> job_run \<Rightarrow> job_run" where
  "emit_event line w = w\<lparr>responses := fanout line (responses w) (on_event (job w))\<rparr>"

text \<open>\<^verbatim>\<open>onEvent\<close>: \<^verbatim>\<open>job.events.push(line); job.emitter.emit("event", line)\<close>.\<close>

definition onEvent :: "string \<Rightarrow> job_run \<Rightarrow> job_run" where
  "onEvent line w = emit_event line (w\<lparr>job := (job w)\<lparr>events := events (job w) @ [line]\<rparr>\<rparr>)"

text \<open>
  The stream route: replay the lines of the job into the response, then register the
  listeners. Nothing is awaited between the two, so the route is one step.
\<close>

definition stream_subscribe :: "job_run \<Rightarrow> job_run" where
  "stream_subscribe w =
     (let sid = length (responses w);
          replayed = \<lparr>written = map sse_frame (events (job w)), ended = False\<rparr>
      in w\<lparr>responses := responses w @ [replayed],
            job := (job w)\<lparr>on_event := on_event (job w) @ [sid],
                            on_done := on_done (job w) @ [sid]\<rparr>\<rparr>)"

text \<open>\<^verbatim>\<open>onDone\<close> and the handler of a closed request: both remove the two listeners
  of the response and end it.\<close>

definition detach :: "nat \<Rightarrow> job_run \<Rightarrow> job_run" where
  "detach sid w =
     w\<lparr>responses := (responses w)[sid := res_end (responses w ! sid)],
       job := (job w)\<lparr>on_event := removeAll sid (on_event (job w)),
                       on_done := removeAll sid (on_done (job w))\<rparr>\<rparr>"

definition emit_done :: "job_run \<Rightarrow> job_run" where
  "emit_done w = (foldl (\<lambda>v sid. detach sid v) w (on_done (job w)))\<lparr>done_emits := Suc (done_emits w)\<rparr>"

subsection \<open>The dispatched work\<close>

text \<open>
  What happens to a dispatched job, one input per step: the callback of
  \<^verbatim>\<open>setImmediate\<close> starts (with the session file found for the stored internal
  session id, if any); the agent's generator yields a message, ends, or something in
  \<^verbatim>\<open>runGenerationCore\<close> throws; the detached loop over \<^verbatim>\<open>tailJsonlFile\<close> receives
  a line; the stop route aborts the controller; a client opens the stream route or
  closes its request.
\<close>

datatype job_input =
    Dispatch "string option"
  | SdkMessage string
  | AdapterInit string string
  | AdapterDone
  | GeneratorReturn
  | CoreThrow string
  | TailLine string
  | AbortSignal
  | StreamSubscribe
  | ClientClose nat

definition set_aborted :: "job_run \<Rightarrow> job_run" where
  "set_aborted w = w\<lparr>job := (job w)\<lparr>aborted := True\<rparr>\<rparr>"

text \<open>The \<^verbatim>\<open>finally\<close> block of the dispatched callback, as far as the job goes.\<close>

definition job_finally :: "nat \<Rightarrow> job_run \<Rightarrow> job_run" where
  "job_finally now w = (emit_done (w\<lparr>job := (job w)\<lparr>finishedAt := Some now\<rparr>\<rparr>))\<lparr>core := Settled\<rparr>"

text \<open>
  The end of \<^verbatim>\<open>runGenerationCore\<close> after its loop: the Codex branch aborts the
  controller to stop the tail; both branches emit the sentinel and return, and the
  callback sets the status.
\<close>

definition core_returns :: "nat \<Rightarrow> job_run \<Rightarrow> job_run" where
  "core_returns now w =
     (let w1 = (if agent w = Codex then set_aborted w else w);
          w2 = onEvent done_line w1;
          w3 = w2\<lparr>job := (job w2)\<lparr>status := Completed\<rparr>\<rparr>
      in job_finally now w3)"

definition core_throws :: "nat \<Rightarrow> string \<Rightarrow> job_run \<Rightarrow> job_run" where
  "core_throws now msg w =
     (let w1 = onEvent (error_event msg) w;
          w2 = w1\<lparr>job := (job w1)\<lparr>status := Failed, error := Some msg\<rparr>\<rparr>
      in job_finally now w2)"

fun job_step :: "job_run \<Rightarrow> nat \<times> job_input \<Rightarrow> job_run" where
  "job_step w (now, Dispatch found) =
     (if core w = Scheduled
      then w\<lparr>job := (job w)\<lparr>status := Running, startedAt := Some now\<rparr>,
             core := InCore,
             tailStarted := (agent w = Codex \<and> found \<noteq> None)\<rparr>
      else w)"
| "job_step w (now, SdkMessage m) =
     (if core w = InCore \<and> agent w = ClaudeCode
      then (if aborted (job w) then core_returns now w else onEvent m w)
      else w)"
| "job_step w (now, AdapterInit path sid) =
     (if core w = InCore \<and> agent w = Codex
      then (if aborted (job w) then core_returns now w else w\<lparr>tailStarted := True\<rparr>)
      else w)"
| "job_step w (now, AdapterDone) =
     (if core w = InCore \<and> agent w = Codex then core_returns now w else w)"
| "job_step w (now, GeneratorReturn) =
     (if core w = InCore then core_returns now w else w)"
| "job_step w (now, CoreThrow msg) =
     (if core w = InCore then core_throws now msg w else w)"
| "job_step w (now, TailLine line) =
     (if agent w = Codex \<and> tailStarted w \<and> \<not> aborted (job w) then onEvent line w else w)"
| "job_step w (now, AbortSignal) = set_aborted w"
| "job_step w (now, StreamSubscribe) = stream_subscribe w"
| "job_step w (now, ClientClose sid) =
     (if sid < length (responses w) then detach sid w else w)"

definition job_exec :: "job_run \<Rightarrow> (nat \<times> job_input) list \<Rightarrow> job_run" where
  "job_exec = foldl job_step"

text \<open>
  The job as the generation route creates it: status \<^verbatim>\<open>queued\<close>, then the contents
  of the user message and, when a worktree was created, its notice are pushed and
  emitted.
\<close>

definition create_job ::
  "string \<Rightarrow> string \<Rightarrow> nat \<Rightarrow> agent_id \<Rightarrow> nat \<Rightarrow> string list \<Rightarrow> job_run" where
  "create_job tid sid now ag c first_lines =
     foldl (\<lambda>w line. onEvent line w)
       \<lparr>job = \<lparr>taskId = tid, sessionId = sid, status = Queued, createdAt = now,
               startedAt = None, finishedAt = None, error = None, events = [],
               on_event = [], on_done = [], abortController = c, aborted = False\<rparr>,
        responses = [], agent = ag, core = Scheduled, tailStarted = False,
        done_emits = 0\<rparr>
       first_lines"

text \<open>The status a job has in each phase of its dispatch.\<close>

definition status_ok :: "job_run \<Rightarrow> bool" where
  "status_ok w =
     (case core w of
        Scheduled \<Rightarrow> status (job w) = Queued
      | InCore \<Rightarrow> status (job w) = Running
      | Settled \<Rightarrow> status (job w) = Completed \<or> status (job w) = Failed)"

text \<open>
  What the stream route owes its subscribers. The listeners are distinct; a response
  whose listener is registered is open and holds exactly the frames of the job's lines;
  every response holds the frames of an initial part of them.
\<close>

definition sub_ok :: "job_run \<Rightarrow> bool" where
  "sub_ok w =
     (distinct (on_event (job w))
      \<and> (\<forall>i\<in>set (on_event (job w)).
            i < length (responses w) \<and> \<not> ended (responses w ! i)
            \<and> written (responses w ! i) = map sse_frame (events (job w)))
      \<and> (\<forall>i<length (responses w).
            \<exists>k. written (responses w ! i) = map sse_frame (take k (events (job w)))))"

text \<open>Nothing is taken back: the log and the responses only grow.\<close>

definition grows :: "job_run \<Rightarrow> job_run \<Rightarrow> bool" where
  "grows w w' =
     (length (responses w) \<le> length (responses w')
      \<and> (\<forall>i<length (responses w).
            length (written (responses w ! i)) \<le> length (written (responses w' ! i)))
      \<and> (\<exists>ys. events (job w') = events (job w) @ ys))"

text \<open>The times, the error and the \<^verbatim>\<open>done\<close> notification in each phase of a dispatch.\<close>

definition lifecycle_ok :: "job_run \<Rightarrow> bool" where
  "lifecycle_ok w =
     (case core w of
        Scheduled \<Rightarrow> status (job w) = Queued \<and> startedAt (job w) = None
                     \<and> finishedAt (job w) = None \<and> error (job w) = None \<and> done_emits w = 0
      | InCore \<Rightarrow> status (job w) = Running \<and> startedAt (job w) \<noteq> None
                  \<and> finishedAt (job w) = None \<and> error (job w) = None \<and> done_emits w = 0
      | Settled \<Rightarrow> startedAt (job w) \<noteq> None \<and> finishedAt (job w) \<noteq> None \<and> done_emits w = 1
                   \<and> (status (job w) = Completed \<and> error (job w) = None
                       \<or> status (job w) = Failed \<and> error (job w) \<noteq> None))"

text \<open>
  What is left of a subscription once its listeners are removed: the response is ended,
  no listener writes to it, and it holds the frames \<open>fs\<close>.
\<close>

definition closed_with :: "nat \<Rightarrow> string list \<Rightarrow> job_run \<Rightarrow> bool" where
  "closed_with me fs w =
     (me < length (responses w) \<and> me \<notin> set (on_event (job w))
      \<and> ended (responses w ! me) \<and> written (responses w ! me) = fs)"

section \<open>The generation route\<close>

text \<open>
  The state the routes of one server process share: the store, the time (in seconds),
  the map \<^verbatim>\<open>sessionAbortControllers\<close> from session ids to abort controllers, the
  abort controllers created so far (a controller is its index here, the entry is the
  state of its signal), the map \<^verbatim>\<open>backgroundJobs\<close>, the number of agent runs
  started, and the number of keep-alive timers running.
\<close>

record server =
  redis :: redis
  clock :: nat
  sessionAbortControllers :: "string \<rightharpoonup> nat"
  controllers :: "bool list"
  backgroundJobs :: "string \<rightharpoonup> job_run"
  agent_runs :: nat
  keepAlives :: nat

definition new_server :: server where
  "new_server = \<lparr>redis = Map.empty, clock = 0, sessionAbortControllers = Map.empty,
                  controllers = [], backgroundJobs = Map.empty, agent_runs = 0,
                  keepAlives = 0\<rparr>"

text \<open>The fields of a request the route reads (the others go to the agent).\<close>

record GenerateRequest =
  req_session_id :: string
  req_agent :: agent_id
  req_background :: bool

text \<open>
  What a foreground turn does between \<^verbatim>\<open>try\<close> and \<^verbatim>\<open>finally\<close>: it runs to its
  end having sent some lines, it throws after some lines, or (Claude Code with
  images) the images cannot be read and it returns early.
\<close>

datatype fg_body = BodyCompletes "string list" | BodyThrows "string list" | ImagesUnreadable string

text \<open>
  What the collaborators of one request answer: whether the body passes validation,
  what \<^verbatim>\<open>createUserMessage\<close> returns (the JSON of the message's contents) or throws,
  the task id drawn for a background job, and the run of a foreground turn.
\<close>

record v2_env =
  valid :: bool
  user_message :: "string + string list"
  new_taskId :: string
  body :: fg_body

text \<open>
  The outcome of the handler for its client: a JSON reply with its status code, an event
  stream with its status code and frames, or no reply at all when the handler throws
  (its promise is rejected with the message).
\<close>

datatype v2_response = Json nat string | Stream nat "string list" | Thrown string

definition stream_failed_line :: string where
  "stream_failed_line = ''{\"type\":\"error\",\"content\":\"Stream failed\",\"done\":true}''"

text \<open>The two statements of both \<^verbatim>\<open>finally\<close> blocks:
  \<^verbatim>\<open>sessionAbortControllers.delete(sessionId); await redisClient.del(activeSessionKey)\<close>.\<close>

definition turn_finally :: "string \<Rightarrow> server \<Rightarrow> server" where
  "turn_finally sid s =
     s\<lparr>sessionAbortControllers := (sessionAbortControllers s)(sid := None),
       redis := release (redis s) sid\<rparr>"

text \<open>The foreground turn: \<^verbatim>\<open>try\<close>, \<^verbatim>\<open>catch\<close>, \<^verbatim>\<open>finally\<close>. The Codex branch
  aborts its controller after the loop, to stop the tail.\<close>

definition foreground_turn ::
  "GenerateRequest \<Rightarrow> nat \<Rightarrow> string list \<Rightarrow> fg_body \<Rightarrow> server \<Rightarrow> v2_response \<times> server" where
  "foreground_turn rq c contents b s =
     (let sid = req_session_id rq;
          first = (if req_agent rq = ClaudeCode then map sse_frame contents else []);
          stopped = s\<lparr>keepAlives := keepAlives s - 1\<rparr>
      in case b of
           ImagesUnreadable msg \<Rightarrow>
             (Stream 400 (first @ [sse_frame (error_event (''Failed to read images: '' @ msg))]),
              turn_finally sid stopped)
         | BodyCompletes ls \<Rightarrow>
             (Stream 200 (first @ map sse_frame ls @ [sse_frame done_line]),
              turn_finally sid
                (stopped\<lparr>agent_runs := Suc (agent_runs s),
                         controllers := (if req_agent rq = Codex
                                         then (controllers s)[c := True] else controllers s)\<rparr>))
         | BodyThrows ls \<Rightarrow>
             (Stream 500 (first @ map sse_frame ls @ [sse_frame stream_failed_line]),
              turn_finally sid (stopped\<lparr>agent_runs := Suc (agent_runs s)\<rparr>)))"

text \<open>
  \<^verbatim>\<open>router.post("/v2", ...)\<close>, in the order of its statements: validation; the
  keep-alive timer of a foreground request; a new abort controller, registered for the
  session; the lock; \<^verbatim>\<open>createUserMessage\<close>; then the background job (created,
  stored, scheduled, answered with 202) or the foreground turn. The resolution of the
  worktree between the lock and \<^verbatim>\<open>createUserMessage\<close> sits in a \<^verbatim>\<open>try\<close> whose
  \<^verbatim>\<open>catch\<close> only logs, and touches neither the lock nor the registration: it is left
  out.
\<close>

definition post_v2 :: "GenerateRequest \<Rightarrow> v2_env \<Rightarrow> server \<Rightarrow> v2_response \<times> server" where
  "post_v2 rq env s =
     (if \<not> valid env then (Json 400 ''Validation failed'', s)
      else
        let sid = req_session_id rq;
            s1 = (if req_background rq then s else s\<lparr>keepAlives := Suc (keepAlives s)\<rparr>);
            c = length (controllers s1);
            s2 = s1\<lparr>controllers := controllers s1 @ [False],
                    sessionAbortControllers := (sessionAbortControllers s1)(sid \<mapsto> c)\<rparr>;
            lockAcquired = fst (acquire (redis s2) (clock s2) sid);
            s3 = s2\<lparr>redis := snd (acquire (redis s2) (clock s2) sid)\<rparr>
        in if \<not> lockAcquired
           then (Thrown (''Session '' @ sid @ '' is already processing a request''), s3)
           else case user_message env of
                  Inl msg \<Rightarrow> (Thrown msg, s3)
                | Inr contents \<Rightarrow>
                    if req_background rq
                    then (Json 202 (new_taskId env),
                          s3\<lparr>backgroundJobs := (backgroundJobs s3)(new_taskId env \<mapsto>
                               create_job (new_taskId env) sid (clock s3) (req_agent rq) c contents)\<rparr>)
                    else foreground_turn rq c contents (body env) s3)"

text \<open>\<^verbatim>\<open>router.delete("/:sessionId/stop", ...)\<close>: abort the controller registered for
  the session and drop the registration; the reply tells whether there was one. Aborting
  a controller sets its signal, which the job that holds the controller sees.\<close>

definition abort_controller :: "nat \<Rightarrow> server \<Rightarrow> server" where
  "abort_controller c s =
     s\<lparr>controllers := (controllers s)[c := True],
       backgroundJobs :=
         (\<lambda>tid. map_option (\<lambda>w. if abortController (job w) = c then set_aborted w else w)
                  (backgroundJobs s tid))\<rparr>"

definition stop_generation :: "string \<Rightarrow> server \<Rightarrow> bool \<times> server" where
  "stop_generation sid s =
     (case sessionAbortControllers s sid of
        Some c \<Rightarrow> (True, (abort_controller c s)\<lparr>sessionAbortControllers :=
                                                  (sessionAbortControllers s)(sid := None)\<rparr>)
      | None \<Rightarrow> (False, s))"

subsection \<open>Two requests for one session\<close>

text \<open>
  A background Codex turn for session \<open>s\<close>, a second request for the same session,
  and a request whose \<^verbatim>\<open>createUserMessage\<close> fails (the insert into the messages
  table throws, and \<^verbatim>\<open>createMessage\<close> rethrows as "Failed to create message").
\<close>

definition first_request :: GenerateRequest where
  "first_request = \<lparr>req_session_id = ''s'', req_agent = Codex, req_background = True\<rparr>"

definition first_env :: v2_env where
  "first_env = \<lparr>valid = True, user_message = Inr [''u''], new_taskId = ''t1'',
                 body = BodyCompletes []\<rparr>"

definition second_request :: GenerateRequest where
  "second_request = \<lparr>req_session_id = ''s'', req_agent = ClaudeCode, req_background = False\<rparr>"

definition second_env :: v2_env where
  "second_env = \<lparr>valid = True, user_message = Inr [''v''], new_taskId = ''t2'',
                  body = BodyCompletes [''m'']\<rparr>"

definition insert_fails_env :: v2_env where
  "insert_fails_env = \<lparr>valid = True, user_message = Inl ''Failed to create message'',
                        new_taskId = ''t3'', body = BodyCompletes [''m'']\<rparr>"

definition first_in_flight :: server where
  "first_in_flight = snd (post_v2 first_request first_env new_server)"

definition second_rejected :: server where
  "second_rejected = snd (post_v2 second_request second_env first_in_flight)"

definition after_failed_insert :: server where
  "after_failed_insert = snd (post_v2 second_request insert_fails_env new_server)"

subsection \<open>A background job inside the server\<close>

text \<open>
  One input to the job stored under a task id. The callback the route scheduled ends
  with \<^verbatim>\<open>finally\<close>: when the input settles the job, the registration of its session
  is deleted and the key of its session is deleted from the store.
\<close>

definition job_input_at :: "string \<Rightarrow> nat \<times> job_input \<Rightarrow> server \<Rightarrow> server" where
  "job_input_at tid x s =
     (case backgroundJobs s tid of
        None \<Rightarrow> s
      | Some w \<Rightarrow>
          (let s' = s\<lparr>backgroundJobs := (backgroundJobs s)(tid \<mapsto> job_step w x)\<rparr>
           in if core w \<noteq> Settled \<and> core (job_step w x) = Settled
              then turn_finally (sessionId (job w)) s'
              else s'))"

section \<open>The Codex process adapter\<close>

subsection \<open>The session id in the standard error of the subprocess\<close>






subsection \<open>Waiting for the session file\<close>

text \<open>
  \<^verbatim>\<open>findCodexSessionFileById\<close> reads the directories under the sessions root; what
  it answers is an input here: the path found, nothing, or the error of a directory
  read.

  \<^verbatim>\<open>waitForSessionFileById\<close> first looks once. If nothing is there it returns a
  promise that three callbacks can settle, the first to do so winning (\<^verbatim>\<open>settled\<close>):
  the check of the interval timer, the listener of the abort signal, and the timeout.
  If the signal is aborted already when the promise is created, the executor calls
  \<^verbatim>\<open>onAbort\<close> at once, before the declarations \<^verbatim>\<open>const timer\<close> and
  \<^verbatim>\<open>const timeout\<close> have run: \<^verbatim>\<open>clearInterval(timer)\<close> throws a
  \<^verbatim>\<open>ReferenceError\<close>, with which the promise is rejected, and no timer is created.
\<close>

type_synonym find_result = "string + string option"

datatype wait_error = WaitAborted | WaitTimedOut | FindFailed string | TimerUninitialised

datatype wait_event = IntervalCheck find_result | AbortEvent | TimeoutEvent

type_synonym wait_outcome = "wait_error + string"

text \<open>A settled promise: the millisecond, counted from the creation of the promise, in
  which it was settled, and how. A callback that runs in millisecond \<open>t\<close> settles a
  promise that is not settled yet.\<close>

type_synonym wait_settled = "nat \<times> wait_outcome"

fun wait_step :: "wait_settled option \<Rightarrow> nat \<times> wait_event \<Rightarrow> wait_settled option" where
  "wait_step (Some r) _ = Some r"
| "wait_step None (t, IntervalCheck (Inr (Some found))) = Some (t, Inr found)"
| "wait_step None (t, IntervalCheck (Inr None)) = None"
| "wait_step None (t, IntervalCheck (Inl err)) = Some (t, Inl (FindFailed err))"
| "wait_step None (t, AbortEvent) = Some (t, Inl WaitAborted)"
| "wait_step None (t, TimeoutEvent) = Some (t, Inl WaitTimedOut)"

text \<open>
  The callbacks the event loop runs in millisecond \<open>t\<close> after the promise was created:
  the abort listener if the signal fires then, the timeout at \<open>timeoutMs + 5\<close>, and
  the \<open>k\<close>-th check at \<open>k * intervalMs\<close>. The check awaits
  \<^verbatim>\<open>findCodexSessionFileById\<close>, so what it finds (\<open>poll k\<close>, taken to arrive within
  the same millisecond) is handled after the timer callbacks of that millisecond.
\<close>

definition callbacks_at ::
  "nat \<Rightarrow> nat \<Rightarrow> (nat \<Rightarrow> find_result) \<Rightarrow> nat option \<Rightarrow> nat \<Rightarrow> (nat \<times> wait_event) list" where
  "callbacks_at timeoutMs intervalMs poll abort_at t =
     (if abort_at = Some t then [(t, AbortEvent)] else [])
     @ (if t = timeoutMs + 5 then [(t, TimeoutEvent)] else [])
     @ (if 0 < intervalMs \<and> t mod intervalMs = 0
        then [(t, IntervalCheck (poll (t div intervalMs)))] else [])"

text \<open>\<open>abort_at = Some 0\<close>: the signal is aborted already when the promise is created.
  What the first look finds is returned in millisecond 0. The result is \<open>None\<close> if
  the promise were never settled.\<close>

definition waitForSessionFileById ::
  "find_result \<Rightarrow> nat \<Rightarrow> nat \<Rightarrow> (nat \<Rightarrow> find_result) \<Rightarrow> nat option \<Rightarrow> wait_settled option" where
  "waitForSessionFileById immediate timeoutMs intervalMs poll abort_at =
     (case immediate of
        Inl err \<Rightarrow> Some (0, Inl (FindFailed err))
      | Inr (Some found) \<Rightarrow> Some (0, Inr found)
      | Inr None \<Rightarrow>
          if abort_at = Some 0 then Some (0, Inl TimerUninitialised)
          else foldl wait_step None
                 (concat (map (callbacks_at timeoutMs intervalMs poll abort_at) [1..<timeoutMs + 6])))"

subsection \<open>\<^verbatim>\<open>queryCodex\<close>\<close>























section \<open>The log tailer\<close>

subsection \<open>Bytes to text\<close>

text \<open>
  \<^verbatim>\<open>buffer.subarray(0, bytesRead).toString("utf8")\<close> decodes the bytes of one read on
  their own. Text is a list of code points here; the operations the tailer applies to
  it (\<^verbatim>\<open>indexOf("\n")\<close>, \<^verbatim>\<open>slice\<close>, \<^verbatim>\<open>trim\<close>) see the same on code points
  as on the UTF-16 units of the source. A byte sequence that is not the encoding of a
  code point, and one that is cut off by the end of the bytes, decodes to U+FFFD, one
  for each maximal part of a sequence.
\<close>

definition is_cont :: "nat \<Rightarrow> bool" where
  "is_cont b = (0x80 \<le> b \<and> b \<le> 0xBF)"

fun utf8_decode :: "nat list \<Rightarrow> nat list" where
  "utf8_decode [] = []"
| "utf8_decode (b # bs) =
     (if b < 0x80 then b # utf8_decode bs
      else if 0xC2 \<le> b \<and> b \<le> 0xDF then
        (case bs of
           [] \<Rightarrow> [0xFFFD]
         | c1 # r1 \<Rightarrow>
             if is_cont c1 then ((b - 0xC0) * 64 + (c1 - 0x80)) # utf8_decode r1
             else 0xFFFD # utf8_decode bs)
      else if 0xE0 \<le> b \<and> b \<le> 0xEF then
        (case bs of
           [] \<Rightarrow> [0xFFFD]
         | c1 # r1 \<Rightarrow>
             if (if b = 0xE0 then 0xA0 else 0x80) \<le> c1 \<and> c1 \<le> (if b = 0xED then 0x9F else 0xBF)
             then (case r1 of
                     [] \<Rightarrow> [0xFFFD]
                   | c2 # r2 \<Rightarrow>
                       if is_cont c2
                       then (((b - 0xE0) * 64 + (c1 - 0x80)) * 64 + (c2 - 0x80)) # utf8_decode r2
                       else 0xFFFD # utf8_decode r1)
             else 0xFFFD # utf8_decode bs)
      else if 0xF0 \<le> b \<and> b \<le> 0xF4 then
        (case bs of
           [] \<Rightarrow> [0xFFFD]
         | c1 # r1 \<Rightarrow>
             if (if b = 0xF0 then 0x90 else 0x80) \<le> c1 \<and> c1 \<le> (if b = 0xF4 then 0x8F else 0xBF)
             then (case r1 of
                     [] \<Rightarrow> [0xFFFD]
                   | c2 # r2 \<Rightarrow>
                       if is_cont c2
                       then (case r2 of
                               [] \<Rightarrow> [0xFFFD]
                             | c3 # r3 \<Rightarrow>
                                 if is_cont c3
                                 then ((((b - 0xF0) * 64 + (c1 - 0x80)) * 64 + (c2 - 0x80)) * 64
                                        + (c3 - 0x80)) # utf8_decode r3
                                 else 0xFFFD # utf8_decode r2)
                       else 0xFFFD # utf8_decode r1)
             else 0xFFFD # utf8_decode bs)
      else 0xFFFD # utf8_decode bs)"

definition to_text :: "string \<Rightarrow> nat list" where
  "to_text bytes = utf8_decode (map of_char bytes)"

text \<open>The white space and line terminators \<^verbatim>\<open>String.prototype.trim\<close> removes.\<close>

definition js_space :: "nat \<Rightarrow> bool" where
  "js_space c =
     ((9 \<le> c \<and> c \<le> 13) \<or> c = 0x20 \<or> c = 0xA0 \<or> c = 0x1680 \<or> (0x2000 \<le> c \<and> c \<le> 0x200A)
      \<or> c = 0x2028 \<or> c = 0x2029 \<or> c = 0x202F \<or> c = 0x205F \<or> c = 0x3000 \<or> c = 0xFEFF)"

definition js_trim :: "nat list \<Rightarrow> nat list" where
  "js_trim s = rev (dropWhile js_space (rev (dropWhile js_space s)))"

fun index_of :: "'a \<Rightarrow> 'a list \<Rightarrow> nat option" where
  "index_of x [] = None"
| "index_of x (y # ys) = (if x = y then Some 0 else map_option Suc (index_of x ys))"

lemma index_of_bound: "index_of x ys = Some n \<Longrightarrow> n < length ys"
  by (induction ys arbitrary: n) (auto split: if_splits)

subsection \<open>Splitting the pending text into lines\<close>

text \<open>
  The inner loop of \<^verbatim>\<open>readNew\<close>: while the pending text holds a newline, cut the line
  before it off, trim it, and enqueue it unless it is empty.
\<close>

function drain_lines :: "nat list \<Rightarrow> nat list list \<Rightarrow> nat list \<times> nat list list" where
  "drain_lines pending queue =
     (case index_of 10 pending of
        None \<Rightarrow> (pending, queue)
      | Some nl \<Rightarrow>
          drain_lines (drop (nl + 1) pending)
            (if js_trim (take nl pending) \<noteq> [] then queue @ [js_trim (take nl pending)] else queue))"
  by pat_completeness auto
termination
  by (relation "measure (\<lambda>(pending, queue). length pending)")
     (auto dest: index_of_bound)

declare drain_lines.simps [simp del]

subsection \<open>The watched directory and the state of one tail\<close>

text \<open>
  The files that have been at the watched path, by the order they appeared (a file
  keeps its number when the path is removed, as an open handle keeps its file), and the
  file the path names now. Then the variables of \<^verbatim>\<open>tailJsonlFile\<close>: the handle (the
  file it was opened on), the offset, the pending text, the queue that bridges the
  watcher to the generator, the lines the generator has yielded, the abort flag and the
  option \<^verbatim>\<open>startAtEnd\<close>.
\<close>

record tailer =
  files :: "string list"
  linked :: "nat option"
  handle :: "nat option"
  offset :: nat
  pending :: "nat list"
  queue :: "nat list list"
  emitted :: "nat list list"
  tail_aborted :: bool
  startAtEnd :: bool

definition buffer_cap :: nat where
  "buffer_cap = 2 ^ 20"

definition openIfNeeded :: "bool \<Rightarrow> tailer \<Rightarrow> tailer" where
  "openIfNeeded initial st =
     (case handle st of
        Some h \<Rightarrow> st
      | None \<Rightarrow>
          (case linked st of
             None \<Rightarrow> st
           | Some i \<Rightarrow>
               st\<lparr>handle := Some i,
                  offset := (if initial then (if startAtEnd st then length (files st ! i) else 0)
                             else 0)\<rparr>))"

text \<open>
  The outer loop of \<^verbatim>\<open>readNew\<close>: read up to a buffer's length from the handle at
  the position, stop at a read of no bytes, decode what was read onto the pending text
  and cut its lines off.
\<close>

function read_chunks ::
  "string \<Rightarrow> nat \<Rightarrow> nat \<Rightarrow> nat \<Rightarrow> nat list \<Rightarrow> nat list list \<Rightarrow> nat \<times> nat list \<times> nat list list" where
  "read_chunks content buflen position remaining pend que =
     (if 0 < remaining \<and> 0 < length (take (min buflen remaining) (drop position content))
      then read_chunks content buflen
             (position + length (take (min buflen remaining) (drop position content)))
             (remaining - length (take (min buflen remaining) (drop position content)))
             (fst (drain_lines (pend @ to_text (take (min buflen remaining) (drop position content))) que))
             (snd (drain_lines (pend @ to_text (take (min buflen remaining) (drop position content))) que))
      else (position, pend, que))"
  by pat_completeness auto
termination
  by (relation "measure (\<lambda>(content, buflen, position, remaining, pend, que). remaining)") auto

declare read_chunks.simps [simp del]

text \<open>
  \<^verbatim>\<open>readNew\<close>, run with no other handler in between (so \<^verbatim>\<open>reading\<close> is false when
  it starts and nothing is queued behind it): open if there is no handle; a path that
  is gone resets the state; otherwise read from the offset to the size of the file at
  the path.
\<close>

definition readNew :: "tailer \<Rightarrow> tailer" where
  "readNew st0 =
     (let st = (if handle st0 = None then openIfNeeded False st0 else st0)
      in case handle st of
           None \<Rightarrow> st
         | Some h \<Rightarrow>
             (case linked st of
                None \<Rightarrow> st\<lparr>handle := None, offset := 0, pending := []\<rparr>
              | Some i \<Rightarrow>
                  if length (files st ! i) \<le> offset st \<or> tail_aborted st then st
                  else
                    (let toRead = length (files st ! i) - offset st;
                         r = read_chunks (files st ! h) (min toRead buffer_cap) (offset st) toRead
                               (pending st) (queue st)
                     in st\<lparr>offset := fst r, pending := fst (snd r), queue := snd (snd r)\<rparr>)))"

text \<open>
  What happens around a tail: the writer appends to the file at the path, the path is
  removed, a file appears at the path (with the bytes it holds by the time the tailer
  looks), the watcher reports a rename or a change of the file, the generator takes the
  next line from the queue, the signal aborts.
\<close>

datatype tail_input = Append string | Unlink | Create string | WatchRename | WatchChange | Consume | TailAbort

fun tail_step :: "tailer \<Rightarrow> tail_input \<Rightarrow> tailer" where
  "tail_step st (Append bytes) =
     (case linked st of
        None \<Rightarrow> st
      | Some i \<Rightarrow> st\<lparr>files := (files st)[i := files st ! i @ bytes]\<rparr>)"
| "tail_step st Unlink = st\<lparr>linked := None\<rparr>"
| "tail_step st (Create bytes) = st\<lparr>files := files st @ [bytes], linked := Some (length (files st))\<rparr>"
| "tail_step st WatchRename =
     (if tail_aborted st then st
      else readNew (openIfNeeded True (st\<lparr>handle := None, offset := 0, pending := []\<rparr>)))"
| "tail_step st WatchChange = (if tail_aborted st then st else readNew st)"
| "tail_step st Consume =
     (if tail_aborted st then st
      else (case queue st of
              [] \<Rightarrow> st
            | next # rest \<Rightarrow> st\<lparr>queue := rest, emitted := emitted st @ [next]\<rparr>))"
| "tail_step st TailAbort = st\<lparr>tail_aborted := True\<rparr>"

definition tail_run :: "tailer \<Rightarrow> tail_input list \<Rightarrow> tailer" where
  "tail_run = foldl tail_step"

text \<open>The start of \<^verbatim>\<open>tailJsonlFile\<close> on a path that names a file with the given
  bytes, or no file: \<^verbatim>\<open>await openIfNeeded(true); if (!startAtEnd) await readNew()\<close>.\<close>

definition tail_start :: "string option \<Rightarrow> bool \<Rightarrow> tailer" where
  "tail_start present at_end =
     (let st = openIfNeeded True
                 \<lparr>files = (case present of None \<Rightarrow> [] | Some bytes \<Rightarrow> [bytes]),
                  linked = (case present of None \<Rightarrow> None | Some bytes \<Rightarrow> Some 0),
                  handle = None, offset = 0, pending = [], queue = [], emitted = [],
                  tail_aborted = False, startAtEnd = at_end\<rparr>
      in if at_end then st else readNew st)"

text \<open>The lines of a whole file: its bytes decoded at once and split as the tailer
  splits, the text after the last newline left out.\<close>

definition file_lines :: "string \<Rightarrow> nat list list" where
  "file_lines content = snd (drain_lines (to_text content) [])"

text \<open>
  Bytes that are all ASCII, the inputs of a tail whose file stays in place (the writer
  appends ASCII bytes, the watcher reports changes, the generator consumes), and what
  such a tail has read: the handle is on the file at the path, the offset is within the
  file, and the pending text and the lines enqueued so far are those of the bytes
  between the starting offset \<open>base\<close> and the offset.
\<close>

definition ascii :: "string \<Rightarrow> bool" where
  "ascii bytes = list_all (\<lambda>c. (of_char c :: nat) < 0x80) bytes"

fun plain_input :: "tail_input \<Rightarrow> bool" where
  "plain_input (Append bytes) = ascii bytes"
| "plain_input WatchChange = True"
| "plain_input Consume = True"
| "plain_input _ = False"

definition caught_up_to :: "nat \<Rightarrow> tailer \<Rightarrow> bool" where
  "caught_up_to base st =
     (length (files st) = 1 \<and> linked st = Some 0 \<and> handle st = Some 0 \<and> \<not> tail_aborted st
      \<and> base \<le> offset st \<and> offset st \<le> length (files st ! 0)
      \<and> ascii (drop base (files st ! 0))
      \<and> drain_lines (to_text (take (offset st - base) (drop base (files st ! 0)))) []
          = (pending st, emitted st @ queue st))"

text \<open>The bytes a list of inputs appends.\<close>

fun appended :: "tail_input list \<Rightarrow> string" where
  "appended [] = []"
| "appended (Append bytes # ins) = bytes @ appended ins"
| "appended (_ # ins) = appended ins"

section \<open>Session lock: mutual exclusion\<close>

lemma activeSessionKey_inj: "activeSessionKey a = activeSessionKey b \<Longrightarrow> a = b"
  by (simp add: activeSessionKey_def)

lemma acquire_held:
  "redis_exists r now (activeSessionKey sid) \<Longrightarrow> acquire r now sid = (False, r)"
  by (simp add: acquire_def redis_set_ex_nx_def)

lemma acquire_other_key:
  "k \<noteq> activeSessionKey s \<Longrightarrow> snd (acquire r now s) k = r k"
  by (simp add: acquire_def redis_set_ex_nx_def)

lemma doneKey_not_active:
  assumes "uuid_shaped sid"
  shows "doneKey s \<noteq> activeSessionKey sid"
proof
  assume "doneKey s = activeSessionKey sid"
  then have eq: "s @ '':done'' = ''active:'' @ sid"
    by (simp add: doneKey_def activeSessionKey_def)
  from assms have len: "length sid = 36" and colon: "CHR '':'' \<notin> set sid"
    by (simp_all add: uuid_shaped_def)
  from eq have "length (s @ '':done'') = length (''active:'' @ sid)" by simp
  with len have ls: "length s = 38" by simp
  have "(s @ '':done'') ! 38 = CHR '':''" using ls by (simp add: nth_append)
  moreover have "(''active:'' @ sid) ! 38 = sid ! 31" by (simp add: nth_append)
  ultimately have "sid ! 31 = CHR '':''" using eq by simp
  moreover have "31 < length sid" using len by simp
  ultimately have "CHR '':'' \<in> set sid" using nth_mem [of 31 sid] by simp
  with colon show False by simp
qed


lemma held_by_step:
  assumes h: "held_by me sid e before st" and t: "lk_now st + elapsed [op] < e"
    and u: "uuid_shaped sid" and nd: "op \<noteq> DeleteSession sid"
    and nf: "\<And>rq. op = Finally rq sid \<Longrightarrow> rq \<noteq> me \<and> (rq, sid) \<notin> set before"
  shows "held_by me sid e before (lock_step st op)
         \<and> lk_now (lock_step st op) = lk_now st + elapsed [op]"
proof (cases op)
  case (Acquire rq s)
  show ?thesis
  proof (cases "s = sid")
    case True
    from h t Acquire have "redis_exists (lk_store st) (lk_now st) (activeSessionKey sid)"
      by (simp add: held_by_def redis_exists_def)
    then have "acquire (lk_store st) (lk_now st) sid = (False, lk_store st)"
      by (rule acquire_held)
    with h Acquire True show ?thesis by simp
  next
    case False
    then have "activeSessionKey sid \<noteq> activeSessionKey s"
      using activeSessionKey_inj by blast
    then have "snd (acquire (lk_store st) (lk_now st) s) (activeSessionKey sid)
               = lk_store st (activeSessionKey sid)"
      by (rule acquire_other_key)
    with h Acquire False show ?thesis by (simp add: held_by_def)
  qed
next
  case (Finally rq s)
  show ?thesis
  proof (cases "s = sid")
    case True
    with nf [of rq] Finally have "rq \<noteq> me" and "(rq, sid) \<notin> set before" by simp_all
    with h have "(rq, sid) \<notin> set (lk_running st)"
      by (auto simp: held_by_def list_all_iff)
    with h Finally True show ?thesis by simp
  next
    case False
    then have "activeSessionKey s \<noteq> activeSessionKey sid"
      using activeSessionKey_inj by blast
    with h Finally show ?thesis
      by (auto simp: held_by_def release_def redis_del_def list_all_iff)
  qed
next
  case (DeleteSession s)
  with nd have "s \<noteq> sid" by simp
  then have "activeSessionKey s \<noteq> activeSessionKey sid"
    using activeSessionKey_inj by blast
  moreover have "doneKey s \<noteq> activeSessionKey sid"
    using u by (rule doneKey_not_active)
  ultimately show ?thesis
    using h DeleteSession by (simp add: held_by_def delete_session_keys_def redis_del_def)
next
  case (Elapse d)
  with h show ?thesis by (simp add: held_by_def)
qed

lemma elapsed_Cons: "elapsed (op # ops) = elapsed [op] + elapsed ops"
  by (cases op) simp_all

lemma held_by_run:
  "held_by me sid e before st \<Longrightarrow> lk_now st + elapsed ops < e \<Longrightarrow> uuid_shaped sid \<Longrightarrow>
   DeleteSession sid \<notin> set ops \<Longrightarrow>
   (\<And>rq. Finally rq sid \<in> set ops \<Longrightarrow> rq \<noteq> me \<and> (rq, sid) \<notin> set before) \<Longrightarrow>
   held_by me sid e before (lock_run st ops) \<and> lk_now (lock_run st ops) = lk_now st + elapsed ops"
  unfolding lock_run_def
proof (induction ops arbitrary: st)
  case Nil
  then show ?case by simp
next
  case (Cons op ops)
  have e: "elapsed (op # ops) = elapsed [op] + elapsed ops" by (rule elapsed_Cons)
  with Cons.prems(2) have t1: "lk_now st + elapsed [op] < e" by linarith
  have s: "held_by me sid e before (lock_step st op)
         \<and> lk_now (lock_step st op) = lk_now st + elapsed [op]"
    using Cons.prems(1) t1 Cons.prems(3)
  proof (rule held_by_step)
    show "op \<noteq> DeleteSession sid" using Cons.prems(4) by auto
    show "\<And>rq. op = Finally rq sid \<Longrightarrow> rq \<noteq> me \<and> (rq, sid) \<notin> set before"
      using Cons.prems(5) by auto
  qed
  then have t2: "lk_now (lock_step st op) + elapsed ops < e"
    using Cons.prems(2) e by linarith
  have "held_by me sid e before (foldl lock_step (lock_step st op) ops)
        \<and> lk_now (foldl lock_step (lock_step st op) ops) = lk_now (lock_step st op) + elapsed ops"
    using s t2 Cons.prems(3)
  proof (intro Cons.IH)
    show "DeleteSession sid \<notin> set ops" using Cons.prems(4) by auto
    show "\<And>rq. Finally rq sid \<in> set ops \<Longrightarrow> rq \<noteq> me \<and> (rq, sid) \<notin> set before"
      using Cons.prems(5) by auto
  qed simp_all
  with s e show ?case by (simp add: add.assoc)
qed

text \<open>
  Claim C1, as amended. Acquire is a create-if-absent of the key
  \<^verbatim>\<open>session:active:<sessionId>\<close> with a time to live of 3600 seconds, and its reply
  tells whether the key was created. Let a request \<open>me\<close> acquire the lock of a session,
  and let any requests follow in which fewer than 3600 seconds pass, the session is not
  deleted, and the release of the session is run neither by \<open>me\<close> nor by a turn of
  the session that was already running when \<open>me\<close> acquired (one whose key expired
  or was deleted under it). Then the key is still held at the end, every acquire for
  the session is refused and changes nothing, and no turn has joined the running turns
  of the session.
\<close>

theorem session_lock_exclusive_within_ttl:
  assumes "fst (acquire (lk_store st) (lk_now st) sid)"
    and "uuid_shaped sid"
    and "st1 = lock_step st (Acquire me sid)"
    and "st2 = lock_run st1 ops"
    and "elapsed ops < lock_ttl"
    and "DeleteSession sid \<notin> set ops"
    and "\<forall>rq. Finally rq sid \<in> set ops \<longrightarrow> rq \<noteq> me \<and> (rq, sid) \<notin> set (lk_running st)"
  shows "\<not> redis_exists (lk_store st) (lk_now st) (activeSessionKey sid)
         \<and> lk_store st1 = (lk_store st)(activeSessionKey sid \<mapsto> (''1'', lk_now st + lock_ttl))
         \<and> redis_exists (lk_store st2) (lk_now st2) (activeSessionKey sid)
         \<and> acquire (lk_store st2) (lk_now st2) sid = (False, lk_store st2)
         \<and> lock_step st2 (Acquire other sid) = st2
         \<and> (\<forall>rq. (rq, sid) \<in> set (lk_running st2) \<longrightarrow> rq = me \<or> (rq, sid) \<in> set (lk_running st))"
proof -
  from assms(1) have absent: "\<not> redis_exists (lk_store st) (lk_now st) (activeSessionKey sid)"
    by (auto simp: acquire_def redis_set_ex_nx_def split: if_splits)
  then have a: "acquire (lk_store st) (lk_now st) sid
         = (True, (lk_store st)(activeSessionKey sid \<mapsto> (''1'', lk_now st + lock_ttl)))"
    by (simp add: acquire_def redis_set_ex_nx_def)
  with assms(3) have s1: "lk_store st1 = (lk_store st)(activeSessionKey sid \<mapsto> (''1'', lk_now st + lock_ttl))"
    and n1: "lk_now st1 = lk_now st" and r1: "lk_running st1 = (me, sid) # lk_running st"
    by simp_all
  have h1: "held_by me sid (lk_now st + lock_ttl) (lk_running st) st1"
    using s1 r1 by (auto simp: held_by_def list_all_iff)
  have t: "lk_now st1 + elapsed ops < lk_now st + lock_ttl" using n1 assms(5) by simp
  have "held_by me sid (lk_now st + lock_ttl) (lk_running st) (lock_run st1 ops)
        \<and> lk_now (lock_run st1 ops) = lk_now st1 + elapsed ops"
    using h1 t assms(2) assms(6)
  proof (rule held_by_run)
    show "\<And>rq. Finally rq sid \<in> set ops \<Longrightarrow> rq \<noteq> me \<and> (rq, sid) \<notin> set (lk_running st)"
      using assms(7) by blast
  qed
  with assms(4) n1 have h2: "held_by me sid (lk_now st + lock_ttl) (lk_running st) st2"
    and n2: "lk_now st2 = lk_now st + elapsed ops"
    by simp_all
  from h2 n2 assms(5) have held: "redis_exists (lk_store st2) (lk_now st2) (activeSessionKey sid)"
    by (simp add: held_by_def redis_exists_def)
  then have refused: "acquire (lk_store st2) (lk_now st2) sid = (False, lk_store st2)"
    by (rule acquire_held)
  then have same: "lock_step st2 (Acquire other sid) = st2" by simp
  from h2 have turns: "\<forall>rq. (rq, sid) \<in> set (lk_running st2) \<longrightarrow> rq = me \<or> (rq, sid) \<in> set (lk_running st)"
    by (auto simp: held_by_def list_all_iff)
  from absent s1 held refused same turns show ?thesis by blast
qed

theorem session_lock_exclusive_within_ttl_witness:
  "fst (acquire (lk_store (lock_run lock_init [Acquire 0 some_session, Elapse 3600])) 3600 some_session)
   \<and> lk_running (lock_run lock_init [Acquire 0 some_session, Elapse 3600]) = [(0, some_session)]
   \<and> lk_running (lock_run lock_init
        [Acquire 0 some_session, Elapse 3600, Acquire 1 some_session,
         Acquire 2 some_session, Elapse 3599, Finally 2 some_session,
         DeleteSession ''0199ea78-389d-7dc0-a2b9-a41cf7c8b783'', Acquire 3 some_session])
       = [(1, some_session), (0, some_session)]
   \<and> acquire (lk_store (lock_run lock_init
        [Acquire 0 some_session, Elapse 3600, Acquire 1 some_session,
         Acquire 2 some_session, Elapse 3599, Finally 2 some_session,
         DeleteSession ''0199ea78-389d-7dc0-a2b9-a41cf7c8b783'', Acquire 3 some_session])) 7199 some_session
       = (False, lk_store (lock_run lock_init
        [Acquire 0 some_session, Elapse 3600, Acquire 1 some_session,
         Acquire 2 some_session, Elapse 3599, Finally 2 some_session,
         DeleteSession ''0199ea78-389d-7dc0-a2b9-a41cf7c8b783'', Acquire 3 some_session]))"
proof -
  let ?st = "lock_run lock_init [Acquire 0 some_session, Elapse 3600]"
  let ?ops = "[Acquire 2 some_session, Elapse 3599, Finally 2 some_session,
         DeleteSession ''0199ea78-389d-7dc0-a2b9-a41cf7c8b783'', Acquire 3 some_session]"
  let ?st1 = "lock_step ?st (Acquire 1 some_session)"
  let ?st2 = "lock_run ?st1 ?ops"
  have n: "lk_now ?st = 3600" by (simp add: lock_run_def lock_init_def)
  have r: "lk_running ?st = [(0, some_session)]"
    by (simp add: lock_run_def lock_init_def acquire_def redis_set_ex_nx_def redis_exists_def)
  have a: "fst (acquire (lk_store ?st) (lk_now ?st) some_session)"
    by (simp add: lock_run_def lock_init_def acquire_def redis_set_ex_nx_def redis_exists_def
        lock_ttl_def)
  have u: "uuid_shaped some_session" by (simp add: uuid_shaped_def some_session_def)
  have e: "elapsed ?ops < lock_ttl" by (simp add: lock_ttl_def)
  have d: "DeleteSession some_session \<notin> set ?ops" by (simp add: some_session_def)
  have f: "\<forall>rq. Finally rq some_session \<in> set ?ops \<longrightarrow> rq \<noteq> 1 \<and> (rq, some_session) \<notin> set (lk_running ?st)"
    by (simp add: r)
  have n2: "lk_now ?st2 = 7199"
    by (simp add: lock_run_def lock_init_def acquire_def redis_set_ex_nx_def redis_exists_def
        lock_ttl_def)
  have r2: "lk_running ?st2 = [(1, some_session), (0, some_session)]"
    by (simp add: lock_run_def lock_init_def acquire_def redis_set_ex_nx_def redis_exists_def
        lock_ttl_def release_def redis_del_def delete_session_keys_def activeSessionKey_def
        doneKey_def some_session_def)
  have c: "?st2 = lock_run lock_init
        [Acquire 0 some_session, Elapse 3600, Acquire 1 some_session,
         Acquire 2 some_session, Elapse 3599, Finally 2 some_session,
         DeleteSession ''0199ea78-389d-7dc0-a2b9-a41cf7c8b783'', Acquire 3 some_session]"
    by (simp add: lock_run_def)
  from session_lock_exclusive_within_ttl [OF a u refl refl e d f, of 4]
  have "acquire (lk_store ?st2) (lk_now ?st2) some_session = (False, lk_store ?st2)"
    by blast
  with a n r r2 n2 c show ?thesis by (simp only:) 
qed

text \<open>
  Claim C1 as stated fails, in three ways. From the empty store, turn 1 takes the lock
  of a session. (1) 3600 seconds pass, the store drops the key, and turn 2 takes the
  lock while turn 1 is still running, no release having run. (2) The session is
  deleted, which deletes its key, and turn 2 takes the lock while turn 1 is still
  running, no release having run. (3) Turn 1 outlives the 3600 seconds, turn 2 takes
  the lock, and the \<^verbatim>\<open>finally\<close> block of turn 1 deletes the key that turn 2 holds:
  turn 3 takes the lock at once, while turn 2 is running and has not released.
\<close>

theorem session_lock_counterexample:
  "fst (acquire (lk_store lock_init) (lk_now lock_init) some_session)
   \<and> lk_running (lock_run lock_init [Acquire 1 some_session, Elapse 3600, Acquire 2 some_session])
       = [(2, some_session), (1, some_session)]
   \<and> lk_running (lock_run lock_init [Acquire 1 some_session, DeleteSession some_session, Acquire 2 some_session])
       = [(2, some_session), (1, some_session)]
   \<and> lk_running (lock_run lock_init [Acquire 1 some_session, Elapse 3600, Acquire 2 some_session,
         Finally 1 some_session, Acquire 3 some_session])
       = [(3, some_session), (2, some_session)]
   \<and> lk_now (lock_run lock_init [Acquire 1 some_session, Elapse 3600, Acquire 2 some_session,
         Finally 1 some_session, Acquire 3 some_session]) = 3600"
  by (simp add: lock_run_def lock_init_def acquire_def redis_set_ex_nx_def redis_exists_def
        lock_ttl_def release_def redis_del_def delete_session_keys_def activeSessionKey_def
        doneKey_def some_session_def)

section \<open>Background jobs: fields left alone by each operation\<close>

lemma emit_event_fields [simp]:
  "job (emit_event l w) = job w" "core (emit_event l w) = core w"
  "agent (emit_event l w) = agent w" "tailStarted (emit_event l w) = tailStarted w"
  "done_emits (emit_event l w) = done_emits w"
  by (simp_all add: emit_event_def)

lemma onEvent_fields [simp]:
  "status (job (onEvent l w)) = status (job w)"
  "events (job (onEvent l w)) = events (job w) @ [l]"
  "on_event (job (onEvent l w)) = on_event (job w)"
  "on_done (job (onEvent l w)) = on_done (job w)"
  "aborted (job (onEvent l w)) = aborted (job w)"
  "core (onEvent l w) = core w" "agent (onEvent l w) = agent w"
  "tailStarted (onEvent l w) = tailStarted w" "done_emits (onEvent l w) = done_emits w"
  by (simp_all add: onEvent_def)

lemma detach_fields [simp]:
  "status (job (detach i w)) = status (job w)"
  "events (job (detach i w)) = events (job w)"
  "aborted (job (detach i w)) = aborted (job w)"
  "core (detach i w) = core w" "agent (detach i w) = agent w"
  "tailStarted (detach i w) = tailStarted w" "done_emits (detach i w) = done_emits w"
  by (simp_all add: detach_def)

lemma foldl_detach_fields [simp]:
  "status (job (foldl (\<lambda>v sid. detach sid v) w ids)) = status (job w)"
  "events (job (foldl (\<lambda>v sid. detach sid v) w ids)) = events (job w)"
  "aborted (job (foldl (\<lambda>v sid. detach sid v) w ids)) = aborted (job w)"
  "core (foldl (\<lambda>v sid. detach sid v) w ids) = core w"
  "agent (foldl (\<lambda>v sid. detach sid v) w ids) = agent w"
  "tailStarted (foldl (\<lambda>v sid. detach sid v) w ids) = tailStarted w"
  "done_emits (foldl (\<lambda>v sid. detach sid v) w ids) = done_emits w"
  by (induction ids arbitrary: w; simp)+

lemma emit_done_fields [simp]:
  "status (job (emit_done w)) = status (job w)"
  "events (job (emit_done w)) = events (job w)"
  "aborted (job (emit_done w)) = aborted (job w)"
  "core (emit_done w) = core w" "agent (emit_done w) = agent w"
  "tailStarted (emit_done w) = tailStarted w" "done_emits (emit_done w) = Suc (done_emits w)"
  by (simp_all add: emit_done_def)

lemma stream_subscribe_fields [simp]:
  "status (job (stream_subscribe w)) = status (job w)"
  "events (job (stream_subscribe w)) = events (job w)"
  "aborted (job (stream_subscribe w)) = aborted (job w)"
  "core (stream_subscribe w) = core w" "agent (stream_subscribe w) = agent w"
  "tailStarted (stream_subscribe w) = tailStarted w"
  "done_emits (stream_subscribe w) = done_emits w"
  by (simp_all add: stream_subscribe_def Let_def)

lemma set_aborted_fields [simp]:
  "status (job (set_aborted w)) = status (job w)"
  "events (job (set_aborted w)) = events (job w)"
  "on_event (job (set_aborted w)) = on_event (job w)"
  "on_done (job (set_aborted w)) = on_done (job w)"
  "aborted (job (set_aborted w))"
  "core (set_aborted w) = core w" "agent (set_aborted w) = agent w"
  "tailStarted (set_aborted w) = tailStarted w" "done_emits (set_aborted w) = done_emits w"
  "responses (set_aborted w) = responses w"
  by (simp_all add: set_aborted_def)

lemma core_returns_fields [simp]:
  "status (job (core_returns now w)) = Completed"
  "core (core_returns now w) = Settled"
  "agent (core_returns now w) = agent w"
  "events (job (core_returns now w)) = events (job w) @ [done_line]"
  "done_emits (core_returns now w) = Suc (done_emits w)"
  by (simp_all add: core_returns_def job_finally_def Let_def)

lemma core_throws_fields [simp]:
  "status (job (core_throws now msg w)) = Failed"
  "core (core_throws now msg w) = Settled"
  "agent (core_throws now msg w) = agent w"
  "events (job (core_throws now msg w)) = events (job w) @ [error_event msg]"
  "done_emits (core_throws now msg w) = Suc (done_emits w)"
  by (simp_all add: core_throws_def job_finally_def Let_def)

lemma status_ok_step: "status_ok w \<Longrightarrow> status_ok (job_step w (now, i))"
  by (cases i) (auto simp: status_ok_def split: core_phase.splits)

lemma status_ok_exec: "status_ok w \<Longrightarrow> status_ok (job_exec w ins)"
  unfolding job_exec_def
  by (induction ins arbitrary: w) (auto simp: status_ok_step)

lemma status_ok_onEvent [simp]: "status_ok (onEvent l w) = status_ok w"
  by (simp add: status_ok_def split: core_phase.splits)

lemma status_ok_first_lines:
  "status_ok w \<Longrightarrow> status_ok (foldl (\<lambda>w line. onEvent line w) w ls)"
  by (induction ls arbitrary: w) simp_all

lemma status_ok_create: "status_ok (create_job tid sid now ag c ls)"
  unfolding create_job_def
  by (rule status_ok_first_lines) (simp add: status_ok_def)

section \<open>Background jobs: what subscribers hold\<close>

lemma fanout_length [simp]: "length (fanout line rs ids) = length rs"
  unfolding fanout_def by (induction ids arbitrary: rs) simp_all






lemma sub_ok_cong:
  "on_event (job w') = on_event (job w) \<Longrightarrow> events (job w') = events (job w) \<Longrightarrow>
   responses w' = responses w \<Longrightarrow> sub_ok w' = sub_ok w"
  by (simp add: sub_ok_def)

















lemma detach_length [simp]: "length (responses (detach i w)) = length (responses w)"
  by (simp add: detach_def)



lemma grows_cong:
  "responses a = responses a' \<Longrightarrow> events (job a) = events (job a') \<Longrightarrow>
   responses b = responses b' \<Longrightarrow> events (job b) = events (job b') \<Longrightarrow>
   grows a b = grows a' b'"
  by (simp add: grows_def)








lemmas job_eval = job_exec_def create_job_def onEvent_def emit_event_def fanout_def
  stream_subscribe_def Let_def res_write_def res_end_def detach_def emit_done_def
  job_finally_def core_returns_def core_throws_def set_aborted_def

section \<open>Background jobs: how long a subscription lasts\<close>

lemma detach_listeners [simp]:
  "on_event (job (detach i w)) = removeAll i (on_event (job w))"
  "on_done (job (detach i w)) = removeAll i (on_done (job w))"
  by (simp_all add: detach_def)


lemma foldl_detach_length [simp]:
  "length (responses (foldl (\<lambda>v sid. detach sid v) w ids)) = length (responses w)"
  by (induction ids arbitrary: w) simp_all








lemma stream_subscribe_listeners [simp]:
  "on_event (job (stream_subscribe w)) = on_event (job w) @ [length (responses w)]"
  "on_done (job (stream_subscribe w)) = on_done (job w) @ [length (responses w)]"
  by (simp_all add: stream_subscribe_def Let_def)













text \<open>A closed subscription stays as it is.\<close>

lemma closed_with_cong:
  "responses w' = responses w \<Longrightarrow> on_event (job w') = on_event (job w) \<Longrightarrow>
   closed_with me fs w' = closed_with me fs w"
  by (simp add: closed_with_def)

















section \<open>Background jobs: replay, then live\<close>



text \<open>
  Claim C10. No operation gives a background job the status \<^verbatim>\<open>cancelled\<close>. A job is
  created \<^verbatim>\<open>queued\<close>, is \<^verbatim>\<open>running\<close> while its work runs, and is
  \<^verbatim>\<open>completed\<close> or \<^verbatim>\<open>failed\<close> once the work has settled, whatever the inputs:
  in particular a job whose controller was aborted while it ran.
\<close>

theorem status_never_cancelled:
  "status (job (job_exec (create_job tid s t ag c first_lines) ins)) \<noteq> Cancelled
   \<and> status_ok (job_exec (create_job tid s t ag c first_lines) ins)
   \<and> (core (job_exec (create_job tid s t ag c first_lines) ins) = Settled \<longrightarrow>
        status (job (job_exec (create_job tid s t ag c first_lines) ins)) = Completed
        \<or> status (job (job_exec (create_job tid s t ag c first_lines) ins)) = Failed)"
proof -
  have ok: "status_ok (job_exec (create_job tid s t ag c first_lines) ins)"
    by (simp add: status_ok_exec status_ok_create)
  then show ?thesis
    by (auto simp: status_ok_def split: core_phase.splits)
qed

theorem status_never_cancelled_witness:
  "aborted (job (job_exec (create_job ''t'' ''s'' 0 Codex 0 [''u''])
      [(1, Dispatch (Some ''rollout.jsonl'')), (2, AbortSignal), (3, GeneratorReturn)]))
   \<and> status (job (job_exec (create_job ''t'' ''s'' 0 Codex 0 [''u''])
      [(1, Dispatch (Some ''rollout.jsonl'')), (2, AbortSignal), (3, GeneratorReturn)])) = Completed"
proof -
  let ?w = "job_exec (create_job ''t'' ''s'' 0 Codex 0 [''u''])
      [(1, Dispatch (Some ''rollout.jsonl'')), (2, AbortSignal), (3, GeneratorReturn)]"
  have a: "aborted (job ?w)" by (simp add: job_eval)
  have c: "core ?w = Settled" by (simp add: job_eval)
  have f: "status (job ?w) \<noteq> Failed" by (simp add: job_eval)
  from status_never_cancelled [of "''t''" "''s''" 0 Codex 0 "[''u'']"
      "[(1, Dispatch (Some ''rollout.jsonl'')), (2, AbortSignal), (3, GeneratorReturn)]"] c
  have "status (job ?w) = Completed \<or> status (job ?w) = Failed" by blast
  with f a show ?thesis by blast
qed

text \<open>
  Claim C9, at the input where the code leaves it. A Codex job on a resumed session
  starts the tail of the session file at once. When the agent's generator throws (the
  subprocess exits with a code other than zero), \<^verbatim>\<open>runGenerationCore\<close> is left before
  it aborts the controller: the job is \<^verbatim>\<open>failed\<close>, its finish time is set and
  \<^verbatim>\<open>done\<close> is emitted once, but the tail goes on, and a line written to the session
  file later is appended to the events of the finished job.
\<close>

theorem failed_job_tail_appends_after_done:
  "status (job (job_exec (create_job ''t'' ''s'' 0 Codex 0 [])
       [(1, Dispatch (Some ''rollout.jsonl'')), (2, CoreThrow ''codex exited with code 1'')])) = Failed
   \<and> core (job_exec (create_job ''t'' ''s'' 0 Codex 0 [])
       [(1, Dispatch (Some ''rollout.jsonl'')), (2, CoreThrow ''codex exited with code 1'')]) = Settled
   \<and> done_emits (job_exec (create_job ''t'' ''s'' 0 Codex 0 [])
       [(1, Dispatch (Some ''rollout.jsonl'')), (2, CoreThrow ''codex exited with code 1'')]) = 1
   \<and> finishedAt (job (job_exec (create_job ''t'' ''s'' 0 Codex 0 [])
       [(1, Dispatch (Some ''rollout.jsonl'')), (2, CoreThrow ''codex exited with code 1'')])) = Some 2
   \<and> events (job (job_exec (create_job ''t'' ''s'' 0 Codex 0 [])
       [(1, Dispatch (Some ''rollout.jsonl'')), (2, CoreThrow ''codex exited with code 1'')]))
      = [error_event ''codex exited with code 1'']
   \<and> events (job (job_exec (create_job ''t'' ''s'' 0 Codex 0 [])
       [(1, Dispatch (Some ''rollout.jsonl'')), (2, CoreThrow ''codex exited with code 1''),
        (3, TailLine ''late'')]))
      = [error_event ''codex exited with code 1'', ''late'']"
  by (simp add: job_eval)

section \<open>Background jobs: the lifecycle of a dispatch\<close>

lemma times_onEvent [simp]:
  "startedAt (job (onEvent l w)) = startedAt (job w)"
  "finishedAt (job (onEvent l w)) = finishedAt (job w)"
  "error (job (onEvent l w)) = error (job w)"
  by (simp_all add: onEvent_def emit_event_def)

lemma times_detach [simp]:
  "startedAt (job (detach i w)) = startedAt (job w)"
  "finishedAt (job (detach i w)) = finishedAt (job w)"
  "error (job (detach i w)) = error (job w)"
  by (simp_all add: detach_def)

lemma times_foldl_detach [simp]:
  "startedAt (job (foldl (\<lambda>v sid. detach sid v) w ids)) = startedAt (job w)"
  "finishedAt (job (foldl (\<lambda>v sid. detach sid v) w ids)) = finishedAt (job w)"
  "error (job (foldl (\<lambda>v sid. detach sid v) w ids)) = error (job w)"
  by (induction ids arbitrary: w; simp)+

lemma times_emit_done [simp]:
  "startedAt (job (emit_done w)) = startedAt (job w)"
  "finishedAt (job (emit_done w)) = finishedAt (job w)"
  "error (job (emit_done w)) = error (job w)"
  by (simp_all add: emit_done_def)

lemma times_subscribe [simp]:
  "startedAt (job (stream_subscribe w)) = startedAt (job w)"
  "finishedAt (job (stream_subscribe w)) = finishedAt (job w)"
  "error (job (stream_subscribe w)) = error (job w)"
  by (simp_all add: stream_subscribe_def Let_def)

lemma times_set_aborted [simp]:
  "startedAt (job (set_aborted w)) = startedAt (job w)"
  "finishedAt (job (set_aborted w)) = finishedAt (job w)"
  "error (job (set_aborted w)) = error (job w)"
  by (simp_all add: set_aborted_def)

lemma times_core_returns [simp]:
  "startedAt (job (core_returns now w)) = startedAt (job w)"
  "finishedAt (job (core_returns now w)) = Some now"
  "error (job (core_returns now w)) = error (job w)"
  by (simp_all add: core_returns_def job_finally_def Let_def)

lemma times_core_throws [simp]:
  "startedAt (job (core_throws now msg w)) = startedAt (job w)"
  "finishedAt (job (core_throws now msg w)) = Some now"
  "error (job (core_throws now msg w)) = Some msg"
  by (simp_all add: core_throws_def job_finally_def Let_def)

lemma lifecycle_ok_step: "lifecycle_ok w \<Longrightarrow> lifecycle_ok (job_step w (now, i))"
  by (cases i) (auto simp: lifecycle_ok_def split: core_phase.splits)

lemma lifecycle_ok_exec: "lifecycle_ok w \<Longrightarrow> lifecycle_ok (job_exec w ins)"
  unfolding job_exec_def
  by (induction ins arbitrary: w) (auto simp: lifecycle_ok_step)

lemma lifecycle_ok_first_lines:
  "lifecycle_ok w \<Longrightarrow> lifecycle_ok (foldl (\<lambda>w line. onEvent line w) w ls)"
proof (induction ls arbitrary: w)
  case Nil
  then show ?case by simp
next
  case (Cons l ls)
  from Cons.prems have "lifecycle_ok (onEvent l w)"
    by (simp add: lifecycle_ok_def split: core_phase.splits)
  then show ?case using Cons.IH by simp
qed

lemma lifecycle_ok_create: "lifecycle_ok (create_job tid sid now ag c ls)"
  unfolding create_job_def
  by (rule lifecycle_ok_first_lines) (simp add: lifecycle_ok_def)

lemma settled_events_fixed:
  assumes "core w = Settled" and "agent w = ClaudeCode \<or> aborted (job w) \<or> \<not> tailStarted w"
  shows "events (job (job_step w (now, x))) = events (job w) \<and> core (job_step w (now, x)) = Settled
         \<and> done_emits (job_step w (now, x)) = done_emits w"
  using assms by (cases x) (auto simp: detach_def)

text \<open>
  The lifecycle of a dispatch. Dispatch sets the status to \<^verbatim>\<open>running\<close> and records the
  start time. While the work runs nothing is finished. Once the work has settled the
  job is \<^verbatim>\<open>completed\<close> with no error, or \<^verbatim>\<open>failed\<close> with the error recorded; the
  finish time is recorded and \<^verbatim>\<open>done\<close> has been emitted exactly once. After that no
  input changes the events of a Claude Code job, of a Codex job whose controller is
  aborted (every job whose work returned), or of one whose tail never started.
\<close>

theorem dispatch_lifecycle:
  "lifecycle_ok (job_exec (create_job tid sid t ag c first_lines) ins)
   \<and> (core w = Scheduled \<longrightarrow>
        status (job (job_step w (now, Dispatch found))) = Running
        \<and> startedAt (job (job_step w (now, Dispatch found))) = Some now
        \<and> events (job (job_step w (now, Dispatch found))) = events (job w))
   \<and> (core w = InCore \<and> (x = GeneratorReturn \<or> x = CoreThrow msg) \<longrightarrow>
        finishedAt (job (job_step w (now, x))) = Some now
        \<and> done_emits (job_step w (now, x)) = Suc (done_emits w)
        \<and> status (job (job_step w (now, x))) = (if x = GeneratorReturn then Completed else Failed)
        \<and> (x = CoreThrow msg \<longrightarrow> error (job (job_step w (now, x))) = Some msg))
   \<and> (core w = Settled \<and> (agent w = ClaudeCode \<or> aborted (job w) \<or> \<not> tailStarted w) \<longrightarrow>
        events (job (job_exec w after)) = events (job w)
        \<and> done_emits (job_exec w after) = done_emits w)"
proof -
  have 1: "lifecycle_ok (job_exec (create_job tid sid t ag c first_lines) ins)"
    by (simp add: lifecycle_ok_exec lifecycle_ok_create)
  have 2: "core w = Scheduled \<longrightarrow>
        status (job (job_step w (now, Dispatch found))) = Running
        \<and> startedAt (job (job_step w (now, Dispatch found))) = Some now
        \<and> events (job (job_step w (now, Dispatch found))) = events (job w)"
    by simp
  have 3: "core w = InCore \<and> (x = GeneratorReturn \<or> x = CoreThrow msg) \<longrightarrow>
        finishedAt (job (job_step w (now, x))) = Some now
        \<and> done_emits (job_step w (now, x)) = Suc (done_emits w)
        \<and> status (job (job_step w (now, x))) = (if x = GeneratorReturn then Completed else Failed)
        \<and> (x = CoreThrow msg \<longrightarrow> error (job (job_step w (now, x))) = Some msg)"
    by auto
  have keep: "core v = Settled \<and> (agent v = ClaudeCode \<or> aborted (job v) \<or> \<not> tailStarted v) \<Longrightarrow>
        events (job (job_exec v after)) = events (job v)
        \<and> done_emits (job_exec v after) = done_emits v" for v
    unfolding job_exec_def
  proof (induction after arbitrary: v)
    case Nil
    then show ?case by simp
  next
    case (Cons y ys)
    obtain n i where y: "y = (n, i)" by (cases y)
    have s: "events (job (job_step v (n, i))) = events (job v) \<and> core (job_step v (n, i)) = Settled
         \<and> done_emits (job_step v (n, i)) = done_emits v"
      using Cons.prems by (intro settled_events_fixed) auto
    have g: "agent (job_step v (n, i)) = ClaudeCode \<or> aborted (job (job_step v (n, i)))
             \<or> \<not> tailStarted (job_step v (n, i))"
      using Cons.prems by (cases i) (auto simp: detach_def)
    from Cons.IH [of "job_step v (n, i)"] s g y show ?case by simp
  qed
  from 1 2 3 keep show ?thesis by blast
qed

theorem dispatch_lifecycle_witness:
  "done_emits (job_exec (create_job ''t'' ''s'' 0 ClaudeCode 0 [''u''])
      [(1, Dispatch None), (2, SdkMessage ''a''), (3, GeneratorReturn)]) = 1
   \<and> finishedAt (job (job_exec (create_job ''t'' ''s'' 0 ClaudeCode 0 [''u''])
      [(1, Dispatch None), (2, SdkMessage ''a''), (3, GeneratorReturn)])) \<noteq> None
   \<and> events (job (job_exec (job_exec (create_job ''t'' ''s'' 0 ClaudeCode 0 [''u''])
      [(1, Dispatch None), (2, SdkMessage ''a''), (3, GeneratorReturn)])
        [(4, TailLine ''late''), (5, SdkMessage ''b''), (6, GeneratorReturn)]))
     = [''u'', ''a'', done_line]"
proof -
  let ?w = "job_exec (create_job ''t'' ''s'' 0 ClaudeCode 0 [''u''])
      [(1, Dispatch None), (2, SdkMessage ''a''), (3, GeneratorReturn)]"
  have c: "core ?w = Settled" and a: "agent ?w = ClaudeCode"
    and e: "events (job ?w) = [''u'', ''a'', done_line]"
    by (simp_all add: job_eval)
  from dispatch_lifecycle [of "''t''" "''s''" 0 ClaudeCode 0 "[''u'']"
      "[(1, Dispatch None), (2, SdkMessage ''a''), (3, GeneratorReturn)]" ?w _ _ _ _
      "[(4, TailLine ''late''), (5, SdkMessage ''b''), (6, GeneratorReturn)]"]
  have l: "lifecycle_ok ?w"
    and k: "core ?w = Settled \<and> (agent ?w = ClaudeCode \<or> aborted (job ?w) \<or> \<not> tailStarted ?w) \<longrightarrow>
        events (job (job_exec ?w [(4, TailLine ''late''), (5, SdkMessage ''b''), (6, GeneratorReturn)]))
          = events (job ?w)"
    by blast+
  from l c have "done_emits ?w = 1 \<and> finishedAt (job ?w) \<noteq> None"
    by (simp add: lifecycle_ok_def)
  moreover from k c a e
  have "events (job (job_exec ?w [(4, TailLine ''late''), (5, SdkMessage ''b''), (6, GeneratorReturn)]))
          = [''u'', ''a'', done_line]"
    by simp
  ultimately show ?thesis by blast
qed

section \<open>The generation route: lock and registration\<close>

lemmas route_eval = post_v2_def foreground_turn_def turn_finally_def stop_generation_def
  abort_controller_def new_server_def acquire_def release_def redis_set_ex_nx_def
  redis_exists_def redis_del_def lock_ttl_def Let_def first_request_def first_env_def
  second_request_def second_env_def insert_fails_env_def first_in_flight_def
  second_rejected_def after_failed_insert_def

text \<open>
  Claim C4, at the input where the code leaves it. A background turn for session
  \<open>s\<close> is in flight: its controller (number 0) is registered for the session and is the
  controller of its job. A second request for the same session finds the lock taken and
  throws; no job is created and no agent is run, but the request has already started its
  keep-alive timer and registered its own controller (number 1) for the session, in
  place of the first. The stop route then answers that it stopped the session, and
  aborts the controller nobody holds: the job in flight is not aborted.
\<close>

theorem busy_request_replaces_registration:
  "fst (post_v2 first_request first_env new_server) = Json 202 ''t1''
   \<and> sessionAbortControllers first_in_flight ''s'' = Some 0
   \<and> map_option (\<lambda>w. abortController (job w)) (backgroundJobs first_in_flight ''t1'') = Some 0
   \<and> fst (post_v2 second_request second_env first_in_flight)
       = Thrown ''Session s is already processing a request''
   \<and> second_rejected = first_in_flight\<lparr>controllers := [False, False],
                                          sessionAbortControllers := [''s'' \<mapsto> 1],
                                          keepAlives := 1\<rparr>
   \<and> sessionAbortControllers second_rejected ''s'' = Some 1
   \<and> fst (stop_generation ''s'' second_rejected) = True
   \<and> controllers (snd (stop_generation ''s'' second_rejected)) = [False, True]
   \<and> map_option (\<lambda>w. aborted (job w))
        (backgroundJobs (snd (stop_generation ''s'' second_rejected)) ''t1'') = Some False"
  by (simp add: route_eval job_eval)

text \<open>
  Claim C2, at the input where the code leaves it. The request takes the lock and
  registers its controller; then \<^verbatim>\<open>createUserMessage\<close> throws, before the \<^verbatim>\<open>try\<close>
  whose \<^verbatim>\<open>finally\<close> releases them. The handler ends with the key still in the store
  and the controller still registered, and the next request for the session is refused
  as busy although no turn is running.
\<close>

theorem failed_insert_keeps_lock:
  "fst (post_v2 second_request insert_fails_env new_server) = Thrown ''Failed to create message''
   \<and> redis_exists (redis after_failed_insert) (clock after_failed_insert) (activeSessionKey ''s'')
   \<and> redis after_failed_insert (activeSessionKey ''s'') = Some (''1'', 3600)
   \<and> sessionAbortControllers after_failed_insert ''s'' = Some 0
   \<and> agent_runs after_failed_insert = 0
   \<and> fst (post_v2 second_request second_env after_failed_insert)
       = Thrown ''Session s is already processing a request''"
  by (simp add: route_eval)

lemma turn_finally_released:
  "\<not> redis_exists (redis (turn_finally sid s)) t (activeSessionKey sid)
   \<and> sessionAbortControllers (turn_finally sid s) sid = None"
  by (simp add: turn_finally_def release_def redis_del_def redis_exists_def)

lemma foreground_turn_released:
  "\<not> redis_exists (redis (snd (foreground_turn rq c contents b s))) t (activeSessionKey (req_session_id rq))
   \<and> sessionAbortControllers (snd (foreground_turn rq c contents b s)) (req_session_id rq) = None"
  by (cases b) (simp_all add: foreground_turn_def Let_def turn_finally_released)

lemma sessionId_onEvent [simp]: "sessionId (job (onEvent l w)) = sessionId (job w)"
  by (simp add: onEvent_def emit_event_def)

lemma first_lines_fields [simp]:
  "core (foldl (\<lambda>w line. onEvent line w) w ls) = core w"
  "sessionId (job (foldl (\<lambda>w line. onEvent line w) w ls)) = sessionId (job w)"
  by (induction ls arbitrary: w) simp_all

lemma create_job_fields [simp]:
  "core (create_job tid sid now ag c ls) = Scheduled"
  "sessionId (job (create_job tid sid now ag c ls)) = sid"
  by (simp_all add: create_job_def)

text \<open>
  Every turn that gets past \<^verbatim>\<open>createUserMessage\<close> releases its session. A
  foreground turn does so before the handler ends, however its body ends (it completes,
  it throws, the images cannot be read). A background turn is stored as a scheduled
  job of its session, and releases when the input that settles its job arrives, whether
  the work returned or threw.
\<close>

theorem turn_in_try_releases:
  assumes "valid env" and "user_message env = Inr contents"
    and "fst (acquire (redis s) (clock s) (req_session_id rq))"
  shows "(\<not> req_background rq \<longrightarrow>
            \<not> redis_exists (redis (snd (post_v2 rq env s))) t (activeSessionKey (req_session_id rq))
            \<and> sessionAbortControllers (snd (post_v2 rq env s)) (req_session_id rq) = None)
         \<and> (req_background rq \<longrightarrow>
            map_option (\<lambda>w. (sessionId (job w), core w))
              (backgroundJobs (snd (post_v2 rq env s)) (new_taskId env))
              = Some (req_session_id rq, Scheduled))
         \<and> (backgroundJobs s1 tid = Some w \<and> core w \<noteq> Settled \<and> core (job_step w x) = Settled \<longrightarrow>
            \<not> redis_exists (redis (job_input_at tid x s1)) t (activeSessionKey (sessionId (job w)))
            \<and> sessionAbortControllers (job_input_at tid x s1) (sessionId (job w)) = None)"
proof -
  have fg: "\<not> req_background rq \<longrightarrow>
            \<not> redis_exists (redis (snd (post_v2 rq env s))) t (activeSessionKey (req_session_id rq))
            \<and> sessionAbortControllers (snd (post_v2 rq env s)) (req_session_id rq) = None"
    using assms by (simp add: post_v2_def Let_def foreground_turn_released)
  have bg: "req_background rq \<longrightarrow>
            map_option (\<lambda>w. (sessionId (job w), core w))
              (backgroundJobs (snd (post_v2 rq env s)) (new_taskId env))
              = Some (req_session_id rq, Scheduled)"
    using assms by (simp add: post_v2_def Let_def)
  have settle: "backgroundJobs s1 tid = Some w \<and> core w \<noteq> Settled \<and> core (job_step w x) = Settled \<longrightarrow>
            \<not> redis_exists (redis (job_input_at tid x s1)) t (activeSessionKey (sessionId (job w)))
            \<and> sessionAbortControllers (job_input_at tid x s1) (sessionId (job w)) = None"
    by (simp add: job_input_at_def Let_def turn_finally_released)
  from fg bg settle show ?thesis by blast
qed

theorem turn_in_try_releases_witness:
  "sessionAbortControllers (snd (post_v2 second_request second_env new_server)) ''s'' = None
   \<and> redis (snd (post_v2 second_request second_env new_server)) (activeSessionKey ''s'') = None
   \<and> sessionAbortControllers (job_input_at ''t1'' (9, CoreThrow ''codex exited with code 1'')
        (job_input_at ''t1'' (1, Dispatch None) first_in_flight)) ''s'' = None"
proof -
  have v: "valid second_env" and u: "user_message second_env = Inr [''v'']"
    and a: "fst (acquire (redis new_server) (clock new_server) (req_session_id second_request))"
    and nb: "\<not> req_background second_request" and sid: "req_session_id second_request = ''s''"
    by (simp_all add: route_eval)
  let ?s1 = "job_input_at ''t1'' (1, Dispatch None) first_in_flight"
  let ?w = "job_step (create_job ''t1'' ''s'' 0 Codex 0 [''u'']) (1, Dispatch None)"
  have j: "backgroundJobs ?s1 ''t1'' = Some ?w"
    by (simp add: job_input_at_def route_eval del: job_step.simps)
  have c: "core ?w \<noteq> Settled" and c': "core (job_step ?w (9, CoreThrow ''codex exited with code 1'')) = Settled"
    and s: "sessionId (job ?w) = ''s''"
    by simp_all
  from turn_in_try_releases [OF v u a, of 0 ?s1 "''t1''" ?w "(9, CoreThrow ''codex exited with code 1'')"]
    nb sid j c c' s
  have 2: "sessionAbortControllers (snd (post_v2 second_request second_env new_server)) ''s'' = None"
    and 3: "sessionAbortControllers (job_input_at ''t1'' (9, CoreThrow ''codex exited with code 1'') ?s1) ''s'' = None"
    by (simp_all del: job_step.simps)
  moreover have "redis (snd (post_v2 second_request second_env new_server)) (activeSessionKey ''s'') = None"
    by (simp add: route_eval)
  ultimately show ?thesis by simp
qed

text \<open>
  What a request refused for a busy session leaves behind, in general: the store, the
  jobs and the count of agent runs are as before; a controller has been created and
  registered for the session in place of the one that was, and a foreground request
  has started its keep-alive timer.
\<close>

theorem busy_request_effects:
  assumes "valid env" and "redis_exists (redis s) (clock s) (activeSessionKey (req_session_id rq))"
  shows "post_v2 rq env s
         = (Thrown (''Session '' @ req_session_id rq @ '' is already processing a request''),
            s\<lparr>keepAlives := (if req_background rq then keepAlives s else Suc (keepAlives s)),
              controllers := controllers s @ [False],
              sessionAbortControllers :=
                (sessionAbortControllers s)(req_session_id rq \<mapsto> length (controllers s))\<rparr>)"
  using assms by (simp add: post_v2_def Let_def acquire_held)

theorem busy_request_effects_witness:
  "post_v2 second_request second_env first_in_flight
   = (Thrown ''Session s is already processing a request'',
      first_in_flight\<lparr>keepAlives := 1, controllers := [False, False],
                      sessionAbortControllers := [''s'' \<mapsto> 1]\<rparr>)"
proof -
  have v: "valid second_env" by (simp add: second_env_def)
  have h: "redis_exists (redis first_in_flight) (clock first_in_flight)
             (activeSessionKey (req_session_id second_request))"
    by (simp add: route_eval)
  from busy_request_effects [OF v h] show ?thesis
    by (simp add: route_eval)
qed

section \<open>The Codex process adapter: waiting and exit\<close>


lemma wait_step_settled: "foldl wait_step (Some r) evs = Some r"
  by (induction evs) simp_all





















lemma wait_step_timeout: "wait_step s (t, TimeoutEvent) \<noteq> None"
  by (cases s) simp_all

lemma wait_step_keeps: "s \<noteq> None \<Longrightarrow> foldl wait_step s evs = s"
  by (cases s) (simp_all add: wait_step_settled)

lemma wait_fold_settles:
  "TimeoutEvent \<in> snd ` set evs \<Longrightarrow> foldl wait_step s evs \<noteq> None"
proof (induction evs arbitrary: s)
  case Nil
  then show ?case by simp
next
  case (Cons e evs)
  obtain t x where e: "e = (t, x)" by (cases e)
  show ?case
  proof (cases "x = TimeoutEvent")
    case True
    then show ?thesis
      using e wait_step_timeout [of s t] wait_step_keeps [of "wait_step s (t, TimeoutEvent)" evs]
      by simp
  next
    case False
    with Cons e show ?thesis by simp
  qed
qed

lemma wait_step_time:
  assumes "wait_step None e = Some (t, r)"
  shows "t = fst e"
proof -
  obtain u x where e: "e = (u, x)" by (cases e)
  show ?thesis
  proof (cases x)
    case (IntervalCheck f)
    show ?thesis
    proof (cases f)
      case (Inl err)
      with assms e IntervalCheck show ?thesis by simp
    next
      case (Inr found)
      with assms e IntervalCheck show ?thesis by (cases found) simp_all
    qed
  next
    case AbortEvent
    with assms e show ?thesis by simp
  next
    case TimeoutEvent
    with assms e show ?thesis by simp
  qed
qed

lemma wait_fold_time:
  "foldl wait_step None evs = Some (t, r) \<Longrightarrow> t \<in> fst ` set evs"
proof (induction evs)
  case Nil
  then show ?case by simp
next
  case (Cons e evs)
  show ?case
  proof (cases "wait_step None e")
    case None
    with Cons show ?thesis by simp
  next
    case (Some s)
    with Cons.prems have "s = (t, r)" by (simp add: wait_step_settled)
    with Some have "t = fst e" using wait_step_time by blast
    then show ?thesis by simp
  qed
qed

lemma callbacks_at_time: "e \<in> set (callbacks_at timeoutMs intervalMs poll abort_at t) \<Longrightarrow> fst e = t"
  by (auto simp: callbacks_at_def split: if_splits)

text \<open>
  The wait for the session file always settles, and within its bound: whatever the
  checks find and whenever the signal fires, the promise is resolved or rejected no
  later than the millisecond \<open>timeoutMs + 5\<close>, in which the timeout callback runs.
\<close>

theorem wait_always_settles:
  "\<exists>t r. waitForSessionFileById immediate timeoutMs intervalMs poll abort_at = Some (t, r)
          \<and> t \<le> timeoutMs + 5"
proof (cases "immediate = Inr None \<and> abort_at \<noteq> Some 0")
  case False
  then show ?thesis
    by (auto simp: waitForSessionFileById_def split: sum.splits option.splits)
next
  case True
  let ?evs = "concat (map (callbacks_at timeoutMs intervalMs poll abort_at) [1..<timeoutMs + 6])"
  have w: "waitForSessionFileById immediate timeoutMs intervalMs poll abort_at = foldl wait_step None ?evs"
    using True by (simp add: waitForSessionFileById_def)
  have "(timeoutMs + 5, TimeoutEvent) \<in> set (callbacks_at timeoutMs intervalMs poll abort_at (timeoutMs + 5))"
    by (simp add: callbacks_at_def)
  moreover have "timeoutMs + 5 \<in> set [1..<timeoutMs + 6]" by simp
  ultimately have "(timeoutMs + 5, TimeoutEvent) \<in> set ?evs" by (auto simp del: upt_Suc)
  then have "TimeoutEvent \<in> snd ` set ?evs" by force
  then have "foldl wait_step None ?evs \<noteq> None" by (rule wait_fold_settles)
  then obtain t r where s: "foldl wait_step None ?evs = Some (t, r)" by auto
  then have "t \<in> fst ` set ?evs" by (rule wait_fold_time)
  then obtain e u where "u \<in> set [1..<timeoutMs + 6]"
    and "e \<in> set (callbacks_at timeoutMs intervalMs poll abort_at u)" and "t = fst e"
    by (auto simp del: upt_Suc)
  then have "t \<le> timeoutMs + 5" using callbacks_at_time [of e timeoutMs intervalMs poll abort_at u]
    by simp
  with s w show ?thesis by (simp only:) blast
qed

section \<open>The log tailer: rotation and split characters\<close>

lemmas tail_eval = tail_run_def tail_start_def openIfNeeded_def readNew_def to_text_def
  js_trim_def js_space_def is_cont_def buffer_cap_def file_lines_def Let_def
  drain_lines.simps read_chunks.simps

text \<open>
  Claim C6, at the input where the code leaves it. The tail starts at the end of a file
  (as both callers start it); the file is removed and a new one appears at the path,
  already holding the line \<open>a\<close> when the handler of the rename notification opens it;
  then the line \<open>b\<close> is appended. The rename handler resets the state and reopens
  the file with \<^verbatim>\<open>openIfNeeded(true)\<close>, which sets the offset to the size of the new
  file: the line \<open>a\<close>, written after the recreation, is never emitted. When the same
  rotation is seen through \<^verbatim>\<open>readNew\<close> alone (change notifications), the file is
  reopened with \<^verbatim>\<open>openIfNeeded(false)\<close>, at offset zero, and both lines are emitted.
\<close>

theorem rotation_skips_lines_of_new_file:
  "offset (tail_run (tail_start (Some ''old\<newline>'') True)
       [Unlink, WatchRename, Create ''a\<newline>'', WatchRename]) = 2
   \<and> emitted (tail_run (tail_start (Some ''old\<newline>'') True)
       [Unlink, WatchRename, Create ''a\<newline>'', WatchRename, Append ''b\<newline>'', WatchChange,
        Consume, Consume])
      = [[98]]
   \<and> file_lines ''a\<newline>b\<newline>'' = [[97], [98]]
   \<and> emitted (tail_run (tail_start (Some ''old\<newline>'') True)
       [Unlink, WatchChange, Create ''a\<newline>'', WatchChange, Append ''b\<newline>'', WatchChange,
        Consume, Consume])
      = [[97], [98]]"
  by (simp add: tail_eval)

text \<open>
  Claim C7, at the input where the code leaves it. The writer appends a line of one
  character, U+00E9 (the bytes C3 A9, and a newline), and the tailer reads between the two bytes of the
  character. Every byte is read once, and the offset ends at the size of the file; but
  each read is decoded on its own, so the line the tailer yields is two replacement
  characters, not the line of the file.
\<close>

theorem split_character_is_not_the_line_of_the_file:
  "offset (tail_run (tail_start (Some '''') True)
       [Append [CHR 0xC3], WatchChange, Append [CHR 0xA9, CHR 0x0A], WatchChange, Consume]) = 3
   \<and> emitted (tail_run (tail_start (Some '''') True)
       [Append [CHR 0xC3], WatchChange, Append [CHR 0xA9, CHR 0x0A], WatchChange, Consume])
      = [[0xFFFD, 0xFFFD]]
   \<and> file_lines [CHR 0xC3, CHR 0xA9, CHR 0x0A] = [[0xE9]]"
  by (simp add: tail_eval)

section \<open>The log tailer: reading in pieces\<close>

lemma index_of_append_Some:
  "index_of x a = Some n \<Longrightarrow> index_of x (a @ b) = Some n"
  by (induction a arbitrary: n) (auto split: if_splits)

lemma index_of_None_iff: "index_of x a = None \<longleftrightarrow> x \<notin> set a"
  by (induction a) auto

lemma drain_lines_queue:
  "drain_lines p (e @ q) = (fst (drain_lines p q), e @ snd (drain_lines p q))"
proof (induction p q arbitrary: e rule: drain_lines.induct)
  case (1 pending queue)
  show ?case
  proof (cases "index_of 10 pending")
    case None
    then show ?thesis by (simp add: drain_lines.simps [of pending])
  next
    case (Some nl)
    let ?q = "\<lambda>q. if js_trim (take nl pending) \<noteq> [] then q @ [js_trim (take nl pending)] else q"
    have "?q (e @ queue) = e @ ?q queue" by simp
    with 1 [OF Some, of e] Some show ?thesis
      by (simp add: drain_lines.simps [of pending])
  qed
qed


lemma drain_lines_append:
  "drain_lines (a @ b) q = drain_lines (fst (drain_lines a q) @ b) (snd (drain_lines a q))"
proof (induction a q rule: drain_lines.induct)
  case (1 pending queue)
  show ?case
  proof (cases "index_of 10 pending")
    case None
    then have "drain_lines pending queue = (pending, queue)" by (simp add: drain_lines.simps [of pending])
    then show ?thesis by simp
  next
    case (Some nl)
    then have nl: "nl < length pending" by (rule index_of_bound)
    let ?q = "if js_trim (take nl pending) \<noteq> [] then queue @ [js_trim (take nl pending)] else queue"
    have i: "index_of 10 (pending @ b) = Some nl"
      using Some by (rule index_of_append_Some)
    have l: "drain_lines (pending @ b) queue = drain_lines (drop (nl + 1) pending @ b) ?q"
      using i nl by (subst drain_lines.simps) simp
    have r: "drain_lines pending queue = drain_lines (drop (nl + 1) pending) ?q"
      using Some by (subst drain_lines.simps) simp
    from 1 [OF Some] l r show ?thesis by simp
  qed
qed

lemma drain_lines_rest: "10 \<notin> set (fst (drain_lines p q))"
proof (induction p q rule: drain_lines.induct)
  case (1 pending queue)
  show ?case
  proof (cases "index_of 10 pending")
    case None
    then have "drain_lines pending queue = (pending, queue)"
      by (simp add: drain_lines.simps [of pending])
    moreover from None have "10 \<notin> set pending" by (simp add: index_of_None_iff)
    ultimately show ?thesis by simp
  next
    case (Some nl)
    with 1 [OF Some] show ?thesis by (simp add: drain_lines.simps [of pending])
  qed
qed

lemma drain_lines_no_newline: "10 \<notin> set p \<Longrightarrow> drain_lines p q = (p, q)"
proof -
  assume "10 \<notin> set p"
  then have "index_of 10 p = None" by (simp add: index_of_None_iff)
  then show ?thesis by (simp add: drain_lines.simps [of p])
qed

lemma utf8_decode_ascii:
  "list_all (\<lambda>b::nat. b < 0x80) xs \<Longrightarrow> utf8_decode (xs @ ys) = xs @ utf8_decode ys"
  by (induction xs) simp_all

lemma to_text_append: "ascii a \<Longrightarrow> to_text (a @ b) = to_text a @ to_text b"
proof -
  assume "ascii a"
  then have a: "list_all (\<lambda>b::nat. b < 0x80) (map of_char a)"
    by (simp add: ascii_def list_all_iff)
  from utf8_decode_ascii [OF a, of "map of_char b"] utf8_decode_ascii [OF a, of "[]"]
  show ?thesis by (simp add: to_text_def)
qed

lemma ascii_take [simp]: "ascii a \<Longrightarrow> ascii (take n a)"
  by (auto simp: ascii_def list_all_iff dest: in_set_takeD)

lemma ascii_drop [simp]: "ascii a \<Longrightarrow> ascii (drop n a)"
  by (auto simp: ascii_def list_all_iff dest: in_set_dropD)

lemma ascii_append [simp]: "ascii (a @ b) \<longleftrightarrow> ascii a \<and> ascii b"
  by (auto simp: ascii_def)

lemma read_chunks_whole:
  assumes "position + remaining \<le> length content" and "0 < buflen"
    and "ascii (drop position content)" and "10 \<notin> set pend"
  shows "read_chunks content buflen position remaining pend que
         = (position + remaining,
            drain_lines (pend @ to_text (take remaining (drop position content))) que)"
  using assms
proof (induction content buflen position remaining pend que rule: read_chunks.induct)
  case (1 content buflen position remaining pend que)
  let ?k = "min buflen remaining"
  let ?chunk = "take ?k (drop position content)"
  show ?case
  proof (cases "0 < remaining")
    case False
    then show ?thesis
      using "1.prems"(4) by (subst read_chunks.simps) (simp add: to_text_def drain_lines_no_newline)
  next
    case True
    have len: "length ?chunk = ?k" using "1.prems" by simp
    with True "1.prems" have pos: "0 < length ?chunk" by simp
    let ?d = "drain_lines (pend @ to_text ?chunk) que"
    have step: "read_chunks content buflen position remaining pend que
          = read_chunks content buflen (position + ?k) (remaining - ?k) (fst ?d) (snd ?d)"
      using True pos len by (subst read_chunks.simps) simp
    have ih: "read_chunks content buflen (position + ?k) (remaining - ?k) (fst ?d) (snd ?d)
          = (position + ?k + (remaining - ?k),
             drain_lines (fst ?d @ to_text (take (remaining - ?k) (drop (position + ?k) content))) (snd ?d))"
    proof -
      have a: "position + ?k + (remaining - ?k) \<le> length content" using "1.prems" by simp
      have b: "ascii (drop (position + ?k) content)"
        using "1.prems"(3) ascii_drop [of "drop position content" ?k] by (simp add: add.commute)
      have c: "10 \<notin> set (fst ?d)" by (rule drain_lines_rest)
      have "0 < remaining \<and> 0 < length ?chunk" using True pos by simp
      from "1.IH" [OF this _ "1.prems"(2) _ c] len a b show ?thesis
        by simp
    qed
    have split: "take remaining (drop position content)
          = ?chunk @ take (remaining - ?k) (drop (position + ?k) content)"
    proof -
      have "take remaining (drop position content)
            = take ?k (drop position content) @ take (remaining - ?k) (drop ?k (drop position content))"
        by (metis le_add_diff_inverse min.cobounded2 take_add)
      then show ?thesis by (simp add: add.commute)
    qed
    have "drain_lines (pend @ to_text (take remaining (drop position content))) que
          = drain_lines (fst ?d @ to_text (take (remaining - ?k) (drop (position + ?k) content))) (snd ?d)"
    proof -
      have "ascii ?chunk" using "1.prems"(3) by simp
      then have "to_text (take remaining (drop position content))
            = to_text ?chunk @ to_text (take (remaining - ?k) (drop (position + ?k) content))"
        by (simp only: split to_text_append)
      then show ?thesis
        using drain_lines_append [of "pend @ to_text ?chunk"
            "to_text (take (remaining - ?k) (drop (position + ?k) content))" que]
        by simp
    qed
    with step ih show ?thesis by simp
  qed
qed

lemma caught_up_readNew:
  assumes "caught_up_to base st"
  shows "caught_up_to base (readNew st) \<and> offset (readNew st) = length (files st ! 0)
         \<and> files (readNew st) = files st"
proof -
  let ?c = "files st ! 0"
  from assms have h: "handle st = Some 0" and l: "linked st = Some 0" and na: "\<not> tail_aborted st"
    and b: "base \<le> offset st" and o: "offset st \<le> length ?c" and asc: "ascii (drop base ?c)"
    and d: "drain_lines (to_text (take (offset st - base) (drop base ?c))) [] = (pending st, emitted st @ queue st)"
    and n1: "length (files st) = 1"
    by (simp_all add: caught_up_to_def)
  show ?thesis
  proof (cases "length ?c \<le> offset st")
    case True
    with h l have "readNew st = st" by (simp add: readNew_def)
    with assms True o show ?thesis by simp
  next
    case False
    let ?toRead = "length ?c - offset st"
    let ?Y = "take ?toRead (drop (offset st) ?c)"
    let ?D = "drain_lines (pending st @ to_text ?Y) (queue st)"
    have pn: "10 \<notin> set (pending st)"
      using drain_lines_rest [of "to_text (take (offset st - base) (drop base ?c))" "[]"] d by simp
    have ad: "ascii (drop (offset st) ?c)"
      using asc b ascii_drop [of "drop base ?c" "offset st - base"] by simp
    have rc: "read_chunks ?c (min ?toRead buffer_cap) (offset st) ?toRead (pending st) (queue st)
              = (offset st + ?toRead, ?D)"
      using False ad pn by (intro read_chunks_whole) (simp_all add: buffer_cap_def)
    have rn: "readNew st = st\<lparr>offset := length ?c, pending := fst ?D, queue := snd ?D\<rparr>"
      using h l na False by (simp add: readNew_def Let_def rc)
    let ?X = "take (offset st - base) (drop base ?c)"
    have xy: "take (length ?c - base) (drop base ?c) = ?X @ ?Y"
    proof -
      have "drop base ?c = ?X @ drop (offset st - base) (drop base ?c)"
        by (simp only: append_take_drop_id)
      moreover have "drop (offset st - base) (drop base ?c) = drop (offset st) ?c"
        using b by simp
      ultimately show ?thesis by simp
    qed
    have "ascii ?X" using asc by simp
    then have "to_text (?X @ ?Y) = to_text ?X @ to_text ?Y" by (rule to_text_append)
    then have "drain_lines (to_text (?X @ ?Y)) []
          = drain_lines (pending st @ to_text ?Y) (emitted st @ queue st)"
      using drain_lines_append [of "to_text ?X" "to_text ?Y" "[]"] d by simp
    also have "\<dots> = (fst ?D, emitted st @ snd ?D)" by (rule drain_lines_queue)
    finally have dd: "drain_lines (to_text (take (length ?c - base) (drop base ?c))) []
          = (fst ?D, emitted st @ snd ?D)"
      by (simp only: xy)
    from rn h l na b o asc n1 dd False show ?thesis
      by (simp add: caught_up_to_def)
  qed
qed

lemma caught_up_append:
  assumes "caught_up_to base st" and "ascii bytes"
  shows "caught_up_to base (tail_step st (Append bytes))
         \<and> files (tail_step st (Append bytes)) = [files st ! 0 @ bytes]"
proof -
  let ?c = "files st ! 0"
  from assms have l: "linked st = Some 0" and b: "base \<le> offset st" and o: "offset st \<le> length ?c"
    and n1: "length (files st) = 1"
    by (simp_all add: caught_up_to_def)
  from n1 obtain c where fs: "files st = [c]" by (cases "files st") auto
  from assms l b o fs show ?thesis
    by (simp add: caught_up_to_def)
qed

lemma caught_up_consume:
  "caught_up_to base st \<Longrightarrow> caught_up_to base (tail_step st Consume)
   \<and> files (tail_step st Consume) = files st"
  by (cases "queue st") (simp_all add: caught_up_to_def)

lemma caught_up_step:
  assumes "caught_up_to base st" and "plain_input x" and "files st = [c]"
  shows "caught_up_to base (tail_step st x) \<and> files (tail_step st x) = [c @ appended [x]]"
proof (cases x)
  case (Append bytes)
  with assms caught_up_append [of base st bytes] show ?thesis by simp
next
  case WatchChange
  from assms(1) have "\<not> tail_aborted st" by (simp add: caught_up_to_def)
  with WatchChange have "tail_step st x = readNew st" by simp
  with assms caught_up_readNew [of base st] WatchChange show ?thesis by simp
next
  case Consume
  with assms caught_up_consume [of base st] show ?thesis by simp
qed (use assms in simp_all)

lemma appended_append: "appended (xs @ ys) = appended xs @ appended ys"
  by (induction xs rule: appended.induct) simp_all

lemma caught_up_run:
  "caught_up_to base st \<Longrightarrow> list_all plain_input ins \<Longrightarrow> files st = [c] \<Longrightarrow>
   caught_up_to base (tail_run st ins) \<and> files (tail_run st ins) = [c @ appended ins]"
  unfolding tail_run_def
proof (induction ins arbitrary: st c)
  case Nil
  then show ?case by simp
next
  case (Cons x xs)
  from Cons.prems have s: "caught_up_to base (tail_step st x) \<and> files (tail_step st x) = [c @ appended [x]]"
    by (intro caught_up_step) simp_all
  have "appended (x # xs) = appended [x] @ appended xs"
    using appended_append [of "[x]" xs] by simp
  with Cons.IH [of "tail_step st x" "c @ appended [x]"] s Cons.prems show ?case by simp
qed

lemma drain_lines_nil [simp]: "drain_lines [] q = ([], q)"
  by (simp add: drain_lines.simps [of "[]"])

lemma to_text_nil [simp]: "to_text [] = []"
  by (simp add: to_text_def)

lemma caught_up_start:
  assumes "at_end \<or> ascii c0"
  shows "caught_up_to (if at_end then length c0 else 0) (tail_start (Some c0) at_end)
         \<and> files (tail_start (Some c0) at_end) = [c0]"
proof (cases at_end)
  case True
  then show ?thesis
    by (simp add: tail_start_def openIfNeeded_def caught_up_to_def ascii_def)
next
  case False
  let ?pre = "openIfNeeded True
                 \<lparr>files = [c0], linked = Some 0, handle = None, offset = 0, pending = [],
                  queue = [], emitted = [], tail_aborted = False, startAtEnd = at_end\<rparr>"
  from False assms have "caught_up_to 0 ?pre" and "files ?pre = [c0]"
    by (simp_all add: openIfNeeded_def caught_up_to_def)
  with caught_up_readNew [of 0 ?pre] False show ?thesis
    by (simp add: tail_start_def)
qed

lemma consume_many:
  "\<not> tail_aborted st \<Longrightarrow>
   tail_run st (replicate n Consume)
   = st\<lparr>queue := drop n (queue st), emitted := emitted st @ take n (queue st)\<rparr>"
  unfolding tail_run_def
proof (induction n arbitrary: st)
  case 0
  then show ?case by simp
next
  case (Suc n)
  show ?case
  proof (cases "queue st")
    case Nil
    with Suc show ?thesis by simp
  next
    case (Cons l ls)
    with Suc.prems have "\<not> tail_aborted (tail_step st Consume)" by simp
    from Suc.IH [OF this] Cons Suc.prems show ?thesis by simp
  qed
qed

lemma caught_up_prefix:
  assumes "caught_up_to base st"
  shows "\<exists>rest. file_lines (drop base (files st ! 0)) = emitted st @ queue st @ rest"
proof -
  let ?c = "files st ! 0"
  let ?X = "take (offset st - base) (drop base ?c)"
  let ?Y = "drop (offset st - base) (drop base ?c)"
  from assms have asc: "ascii (drop base ?c)"
    and d: "drain_lines (to_text ?X) [] = (pending st, emitted st @ queue st)"
    by (simp_all add: caught_up_to_def)
  have ax: "ascii ?X" using asc by simp
  have "drain_lines (to_text (drop base ?c)) [] = drain_lines (to_text (?X @ ?Y)) []"
    by (simp only: append_take_drop_id)
  also have "\<dots> = drain_lines (to_text ?X @ to_text ?Y) []"
    by (simp only: to_text_append [OF ax])
  also have "\<dots> = drain_lines (fst (drain_lines (to_text ?X) []) @ to_text ?Y)
                        (snd (drain_lines (to_text ?X) []))"
    by (rule drain_lines_append)
  also have "\<dots> = drain_lines (pending st @ to_text ?Y) ((emitted st @ queue st) @ [])"
    by (simp only: d fst_conv snd_conv append_Nil2)
  also have "\<dots> = (fst (drain_lines (pending st @ to_text ?Y) []),
                     (emitted st @ queue st) @ snd (drain_lines (pending st @ to_text ?Y) []))"
    by (rule drain_lines_queue)
  finally show ?thesis by (simp add: file_lines_def)
qed

text \<open>
  A tail whose file stays in place and holds ASCII text reads it as one read of the
  whole would. Start the tail on a file (at its end, or at its beginning if the file is
  ASCII), and let the writer append ASCII bytes while change notifications and the
  consumer come in any order and number. At every moment the lines yielded are an
  initial part of the lines of the bytes after the starting offset. After one more
  change notification the offset is the size of the file, and once the consumer has
  taken what is queued, the lines yielded are exactly those lines: each byte was read
  once, in whatever pieces the notifications cut.
\<close>

theorem tail_yields_lines_of_appended_bytes:
  assumes "list_all plain_input ins" and "at_end \<or> ascii c0"
    and "base = (if at_end then length c0 else 0)"
    and "length (file_lines (drop base (c0 @ appended ins))) \<le> n"
  shows "(\<exists>rest. file_lines (drop base (c0 @ appended ins))
            = emitted (tail_run (tail_start (Some c0) at_end) ins) @ rest)
         \<and> offset (tail_run (tail_start (Some c0) at_end) (ins @ [WatchChange]))
            = length (c0 @ appended ins)
         \<and> emitted (tail_run (tail_start (Some c0) at_end) (ins @ WatchChange # replicate n Consume))
            = file_lines (drop base (c0 @ appended ins))
         \<and> queue (tail_run (tail_start (Some c0) at_end) (ins @ WatchChange # replicate n Consume)) = []"
proof -
  let ?st = "tail_run (tail_start (Some c0) at_end) ins"
  from caught_up_start [OF assms(2)] assms(3)
  have s0: "caught_up_to base (tail_start (Some c0) at_end)"
    and f0: "files (tail_start (Some c0) at_end) = [c0]"
    by simp_all
  from caught_up_run [OF s0 assms(1) f0]
  have c: "caught_up_to base ?st" and f: "files ?st = [c0 @ appended ins]"
    by simp_all
  from caught_up_prefix [OF c] f
  have 1: "\<exists>rest. file_lines (drop base (c0 @ appended ins)) = emitted ?st @ rest"
    by auto
  let ?st1 = "readNew ?st"
  have na: "\<not> tail_aborted ?st" using c by (simp add: caught_up_to_def)
  have r1: "tail_run (tail_start (Some c0) at_end) (ins @ [WatchChange]) = ?st1"
    using na by (simp add: tail_run_def)
  from caught_up_readNew [OF c] f
  have c1: "caught_up_to base ?st1" and o1: "offset ?st1 = length (c0 @ appended ins)"
    and f1: "files ?st1 = [c0 @ appended ins]"
    by simp_all
  from c1 o1 f1 have d1: "drain_lines (to_text (drop base (c0 @ appended ins))) []
        = (pending ?st1, emitted ?st1 @ queue ?st1)"
    and b1: "base \<le> length (c0 @ appended ins)"
    by (simp_all add: caught_up_to_def)
  then have l1: "file_lines (drop base (c0 @ appended ins)) = emitted ?st1 @ queue ?st1"
    by (simp add: file_lines_def)
  with assms(4) have qn: "length (queue ?st1) \<le> n" by simp
  have na1: "\<not> tail_aborted ?st1" using c1 by (simp add: caught_up_to_def)
  have "tail_run (tail_start (Some c0) at_end) (ins @ WatchChange # replicate n Consume)
        = tail_run ?st1 (replicate n Consume)"
    using na by (simp add: tail_run_def)
  also have "\<dots> = ?st1\<lparr>queue := drop n (queue ?st1), emitted := emitted ?st1 @ take n (queue ?st1)\<rparr>"
    using na1 by (rule consume_many)
  finally have fin: "tail_run (tail_start (Some c0) at_end) (ins @ WatchChange # replicate n Consume)
        = ?st1\<lparr>queue := [], emitted := emitted ?st1 @ queue ?st1\<rparr>"
    using qn by simp
  from 1 r1 o1 fin l1 show ?thesis by simp
qed

theorem tail_yields_lines_of_appended_bytes_witness:
  "emitted (tail_run (tail_start (Some ''old\<newline>'') True)
      ([Append ''{\"a\":1}\<newline>{\"b'', WatchChange, Consume, Append ''\":2}\<newline>  \<newline>tail'']
        @ WatchChange # replicate 2 Consume))
   = [ [123, 34, 97, 34, 58, 49, 125], [123, 34, 98, 34, 58, 50, 125] ]"
proof -
  let ?ins = "[Append ''{\"a\":1}\<newline>{\"b'', WatchChange, Consume, Append ''\":2}\<newline>  \<newline>tail'']"
  have p: "list_all plain_input ?ins" by (simp add: ascii_def)
  have fl: "file_lines (drop 4 (''old\<newline>'' @ appended ?ins))
        = [ [123, 34, 97, 34, 58, 49, 125], [123, 34, 98, 34, 58, 50, 125] ]"
    by (simp add: tail_eval)
  then have n: "length (file_lines (drop 4 (''old\<newline>'' @ appended ?ins))) \<le> 2" by simp
  from tail_yields_lines_of_appended_bytes [OF p, of True "''old\<newline>''" 4 2] n
  have "emitted (tail_run (tail_start (Some ''old\<newline>'') True) (?ins @ WatchChange # replicate 2 Consume))
        = file_lines (drop 4 (''old\<newline>'' @ appended ?ins))"
    by simp
  with fl show ?thesis by simp
qed

end
